theory Spec2Isabelle
  imports Complex_Main "HOL-Library.Word" "HOL-Library.Sublist" "HOL-Library.Code_Target_Nat"
begin

section \<open>Conventions of the embedding\<close>

text \<open>
  The voice assistant is written in Go. The embedding follows these conventions.
  \<^item> A Go \<open>string\<close> is a byte sequence: here \<open>string\<close> (a \<open>char list\<close>), read as
    UTF-8 where the code reads runes. \<open>strings.TrimSpace\<close>, \<open>strings.ToLower\<close> and the
    loop over the runes of a string decode it with \<open>utf8.DecodeRuneInString\<close>;
    \<open>strings.Index\<close>, \<open>strings.Contains\<close>, slicing and \<open>len\<close> count bytes. The case
    tables of package \<open>unicode\<close> are a parameter of the functions that lower-case.
  \<^item> A Go \<open>int\<close> is a 64-bit two's complement integer: here \<open>int\<close>, with the
    wrap-around of an arithmetic operation written out (\<open>wrap64\<close>) wherever the result
    can leave the 64-bit range. \<open>len\<close> of a slice is \<open>int (length xs)\<close>.
  \<^item> \<open>atomic.Uint64\<close> counters are \<open>64 word\<close>.
  \<^item> A finite \<open>float32\<close> or \<open>float64\<close> value is a real number: here \<open>real\<close>, and
    an arithmetic operation is the exact operation followed by the rounding of its
    format, which is a parameter of the functions that compute with floats.
  \<^item> A panic or an error return is a value of the datatype \<open>error\<close>; a function that
    can fail returns \<open>error + 'a\<close>.
  \<^item> A method with a pointer receiver takes the receiver's state and returns the new one.
\<close>

type_synonym float32 = real
type_synonym float64 = real

datatype error =
    ErrExternal string
  | ErrInvalidHostURL error
  | ErrChatRequestFailed error
  | ErrCreateVAD
  | ErrCreateRecognizer
  | ErrCreateTTS
  | PanicIndexOutOfRange
  | PanicSliceBounds
  | PanicMakeSliceLen

definition wrap64 :: "int \<Rightarrow> int" where
  "wrap64 x = (x + 2 ^ 63) mod 2 ^ 64 - 2 ^ 63"

subsection \<open>Packages unicode/utf8, unicode and strings\<close>

text \<open>
  A rune is a Unicode code point, a byte is a \<open>char\<close>. \<open>utf8.DecodeRuneInString\<close>
  returns the first rune of a string and the number of bytes it takes; a byte sequence
  that is not the UTF-8 encoding of a rune decodes as \<open>RuneError\<close> (U+FFFD) of width 1.
  The second byte of an encoding is checked against the range that the first byte
  admits, every later byte against \<open>0x80\<close> to \<open>0xBF\<close>.
\<close>

type_synonym rune = nat

definition RuneError :: rune where
  "RuneError = 0xFFFD"

definition byte :: "char \<Rightarrow> nat" where
  "byte c = of_char c"

definition inRange :: "nat \<Rightarrow> nat \<Rightarrow> char \<Rightarrow> bool" where
  "inRange lo hi c = (lo \<le> byte c \<and> byte c \<le> hi)"

fun DecodeRune :: "string \<Rightarrow> rune \<times> nat" where
  "DecodeRune [] = (RuneError, 0)"
| "DecodeRune (c0 # s) =
     (let b0 = byte c0 in
      if b0 < 0x80 then (b0, 1)
      else if b0 < 0xC2 \<or> 0xF4 < b0 then (RuneError, 1)
      else if b0 < 0xE0 then
        (case s of
           c1 # _ \<Rightarrow>
             if inRange 0x80 0xBF c1 then ((b0 mod 32) * 64 + byte c1 mod 64, 2)
             else (RuneError, 1)
         | _ \<Rightarrow> (RuneError, 1))
      else if b0 < 0xF0 then
        (case s of
           c1 # c2 # _ \<Rightarrow>
             if inRange (if b0 = 0xE0 then 0xA0 else 0x80) (if b0 = 0xED then 0x9F else 0xBF) c1
                \<and> inRange 0x80 0xBF c2
             then (((b0 mod 16) * 64 + byte c1 mod 64) * 64 + byte c2 mod 64, 3)
             else (RuneError, 1)
         | _ \<Rightarrow> (RuneError, 1))
      else
        (case s of
           c1 # c2 # c3 # _ \<Rightarrow>
             if inRange (if b0 = 0xF0 then 0x90 else 0x80) (if b0 = 0xF4 then 0x8F else 0xBF) c1
                \<and> inRange 0x80 0xBF c2 \<and> inRange 0x80 0xBF c3
             then ((((b0 mod 8) * 64 + byte c1 mod 64) * 64 + byte c2 mod 64) * 64
                     + byte c3 mod 64, 4)
             else (RuneError, 1)
         | _ \<Rightarrow> (RuneError, 1)))"

text \<open>
  \<open>units s\<close> is the sequence of runes that a loop \<open>for _, c := range s\<close> visits, each
  with the bytes it was decoded from; \<open>runes s\<close> is the sequence of the runes alone.
\<close>

fun units :: "string \<Rightarrow> (rune \<times> string) list" where
  "units [] = []"
| "units (c # s) =
     (case DecodeRune (c # s) of
        (r, w) \<Rightarrow> (r, c # take (w - 1) s) # units (drop (w - 1) s))"

definition runes :: "string \<Rightarrow> rune list" where
  "runes s = map fst (units s)"

text \<open>
  \<open>utf8.EncodeRune\<close>, which \<open>strings.Builder.WriteRune\<close> appends to the builder: a
  surrogate or a value above U+10FFFF is written as \<open>RuneError\<close>.
\<close>

definition EncodeRune :: "rune \<Rightarrow> string" where
  "EncodeRune r0 =
     (if r0 \<le> 0x7F then [char_of r0]
      else if r0 \<le> 0x7FF then [char_of (0xC0 + r0 div 64), char_of (0x80 + r0 mod 64)]
      else
        (let r = (if r0 > 0x10FFFF \<or> (0xD800 \<le> r0 \<and> r0 \<le> 0xDFFF) then RuneError else r0) in
         if r \<le> 0xFFFF then
           [char_of (0xE0 + r div 4096), char_of (0x80 + (r div 64) mod 64),
            char_of (0x80 + r mod 64)]
         else
           [char_of (0xF0 + r div 262144), char_of (0x80 + (r div 4096) mod 64),
            char_of (0x80 + (r div 64) mod 64), char_of (0x80 + r mod 64)]))"

text \<open>\<open>utf8.ValidRune\<close>: a code point up to U+10FFFF that is not a surrogate.\<close>

definition ValidRune :: "rune \<Rightarrow> bool" where
  "ValidRune r = (r < 0xD800 \<or> (0xDFFF < r \<and> r \<le> 0x10FFFF))"

text \<open>
  \<open>utf8.ValidString\<close>: no byte of the string decodes as an encoding error. (The
  three-byte encoding of U+FFFD itself is valid.)
\<close>

definition ValidString :: "string \<Rightarrow> bool" where
  "ValidString s = list_all (\<lambda>u. fst u \<noteq> RuneError \<or> length (snd u) = 3) (units s)"

definition WriteRunes :: "rune list \<Rightarrow> string" where
  "WriteRunes rs = concat (map EncodeRune rs)"

text \<open>\<open>unicode.IsSpace\<close>: the white space of Latin-1 and the property White_Space beyond it.\<close>

definition IsSpace :: "rune \<Rightarrow> bool" where
  "IsSpace r =
     (r \<in> set [0x09, 0x0A, 0x0B, 0x0C, 0x0D, 0x20, 0x85, 0xA0,
                0x1680, 0x2028, 0x2029, 0x202F, 0x205F, 0x3000]
      \<or> (0x2000 \<le> r \<and> r \<le> 0x200A))"

text \<open>
  \<open>strings.TrimSpace\<close> removes the leading and the trailing runes that
  \<open>unicode.IsSpace\<close> accepts and returns the bytes in between. It finds a trailing
  white-space rune by decoding backwards from the end, which yields the last rune of
  the forward decoding: every byte that is not a continuation byte starts a rune.
\<close>

definition trimBy :: "('a \<Rightarrow> bool) \<Rightarrow> 'a list \<Rightarrow> 'a list" where
  "trimBy P xs = rev (dropWhile P (rev (dropWhile P xs)))"

definition TrimSpace :: "string \<Rightarrow> string" where
  "TrimSpace s = concat (map snd (trimBy (\<lambda>u. IsSpace (fst u)) (units s)))"

text \<open>\<open>strings.TrimLeft\<close> for a cut set of ASCII characters, which it compares byte by byte.\<close>

definition TrimLeft :: "string \<Rightarrow> string \<Rightarrow> string" where
  "TrimLeft s cutset = dropWhile (\<lambda>c. c \<in> set cutset) s"

definition TrimSuffix :: "string \<Rightarrow> string \<Rightarrow> string" where
  "TrimSuffix s suf = (if suffix suf s then take (length s - length suf) s else s)"

text \<open>
  \<open>strings.ToLower\<close>. A string of ASCII bytes is lower-cased byte by byte. Any other
  string is decoded, and the lower-case variant of each rune is written to the result
  (\<open>strings.Map\<close>); an invalid byte is written as \<open>RuneError\<close>. The result can be longer
  or shorter than the string. The case tables of \<open>unicode.ToLower\<close> are the parameter
  \<open>lower\<close>.
\<close>

definition isASCII :: "string \<Rightarrow> bool" where
  "isASCII s = list_all (\<lambda>c. byte c < 0x80) s"

definition lowerByte :: "char \<Rightarrow> char" where
  "lowerByte c = (if 65 \<le> byte c \<and> byte c \<le> 90 then char_of (byte c + 32) else c)"

definition ToLower :: "(rune \<Rightarrow> rune) \<Rightarrow> string \<Rightarrow> string" where
  "ToLower lower s =
     (if isASCII s then map lowerByte s
      else concat (map (\<lambda>u. EncodeRune (lower (fst u))) (units s)))"

text \<open>
  Lower-casing keeps the byte offsets of a string when it keeps the number of bytes of
  each of its runes; an ASCII string is lower-cased byte by byte.
\<close>

definition keepsWidth :: "(rune \<Rightarrow> rune) \<Rightarrow> string \<Rightarrow> bool" where
  "keepsWidth lower s =
     (isASCII s \<or> list_all (\<lambda>u. length (EncodeRune (lower (fst u))) = length (snd u)) (units s))"

fun Index_from :: "int \<Rightarrow> string \<Rightarrow> string \<Rightarrow> int" where
  "Index_from i [] substr = (if substr = [] then i else -1)"
| "Index_from i (c # cs) substr =
     (if prefix substr (c # cs) then i else Index_from (i + 1) cs substr)"

definition Index :: "string \<Rightarrow> string \<Rightarrow> int" where
  "Index s substr = Index_from 0 s substr"

definition Contains :: "string \<Rightarrow> string \<Rightarrow> bool" where
  "Contains s substr = (Index s substr \<ge> 0)"

section \<open>Package llm: the conversation client\<close>

record Message =
  Role :: string
  Content :: string

record llm_Config =
  Host :: string
  Model :: string
  SystemPrompt :: string
  Verbose :: bool
  MaxHistory :: int
  Temperature :: float32

record Client =
  client :: string
  model :: string
  history :: "Message list"
  verbose :: bool
  maxHistory :: int
  temperature :: float32

record ChatRequest =
  req_Model :: string
  req_Messages :: "Message list"
  req_Stream :: bool
  req_temperature :: float32
  req_num_predict :: int
  req_num_ctx :: int

text \<open>
  \<open>NewClient\<close>. The URL parser of package \<open>net/url\<close> is the parameter \<open>url_Parse\<close>; the
  HTTP client built around the parsed URL is represented by that URL.
\<close>

definition NewClient :: "(string \<Rightarrow> error + string) \<Rightarrow> llm_Config \<Rightarrow> error + Client" where
  "NewClient url_Parse cfg =
     (let maxHistory0 = MaxHistory cfg;
          maxHistory1 = (if maxHistory0 \<le> 0 then 10 else maxHistory0);
          host = TrimSuffix (Host cfg) ''/''
      in case url_Parse host of
           Inl err \<Rightarrow> Inl (ErrInvalidHostURL err)
         | Inr parsedURL \<Rightarrow>
             Inr \<lparr> client = parsedURL,
                   model = Model cfg,
                   history = [] @ [\<lparr> Role = ''system'', Content = SystemPrompt cfg \<rparr>],
                   verbose = Verbose cfg,
                   maxHistory = maxHistory1,
                   temperature = Temperature cfg \<rparr>)"

text \<open>
  \<open>trimHistory\<close>. \<open>c.history[0]\<close> panics on an empty slice, and the slice expression
  \<open>c.history[len(c.history)-c.maxHistory*2:]\<close> panics when its lower bound is negative
  or exceeds the length.
\<close>

definition trimHistory :: "Client \<Rightarrow> error + Client" where
  "trimHistory c =
     (let maxMessages = wrap64 (1 + wrap64 (maxHistory c * 2)) in
      if int (length (history c)) > maxMessages then
        (case history c of
           [] \<Rightarrow> Inl PanicIndexOutOfRange
         | systemMsg # _ \<Rightarrow>
             (let lo = wrap64 (int (length (history c)) - wrap64 (maxHistory c * 2)) in
              if lo < 0 \<or> lo > int (length (history c)) then Inl PanicSliceBounds
              else Inr (c\<lparr>history := [systemMsg] @ drop (nat lo) (history c)\<rparr>)))
      else Inr c)"

text \<open>
  \<open>ClearHistory\<close> re-slices \<open>c.history[:1]\<close>. Go checks the upper bound of a slice
  expression against the capacity, not the length: on an empty history the expression
  panics when the capacity is 0, and otherwise yields the first element of the backing
  array. That element is the parameter \<open>spare\<close>, which is \<open>None\<close> for the capacity 0.
\<close>

definition ClearHistory :: "Message option \<Rightarrow> Client \<Rightarrow> error + Client" where
  "ClearHistory spare c =
     (case history c of
        [] \<Rightarrow> (case spare of
                 None \<Rightarrow> Inl PanicSliceBounds
               | Some m \<Rightarrow> Inr (c\<lparr>history := [m]\<rparr>))
      | _ \<Rightarrow> Inr (c\<lparr>history := take 1 (history c)\<rparr>))"

text \<open>
  \<open>Chat\<close>. The remote model is the parameter \<open>remote\<close>: it receives the request and
  returns the content of the response message, or an error. The result is the client
  after the call together with the returned \<open>(string, error)\<close>.
\<close>

definition Chat :: "(ChatRequest \<Rightarrow> error + string) \<Rightarrow> Client \<Rightarrow> string \<Rightarrow> Client \<times> (error + string)" where
  "Chat remote c userMessage =
     (let c1 = c\<lparr>history := history c @ [\<lparr> Role = ''user'', Content = userMessage \<rparr>]\<rparr>;
          stream = False
      in case remote \<lparr> req_Model = model c1, req_Messages = history c1, req_Stream = stream,
                       req_temperature = temperature c1, req_num_predict = 150,
                       req_num_ctx = 1024 \<rparr> of
           Inl err \<Rightarrow> (c1, Inl (ErrChatRequestFailed err))
         | Inr content \<Rightarrow>
             (let finalResponse = TrimSpace content;
                  c2 = c1\<lparr>history := history c1 @ [\<lparr> Role = ''assistant'', Content = finalResponse \<rparr>]\<rparr>
              in case trimHistory c2 of
                   Inl p \<Rightarrow> (c2, Inl p)
                 | Inr c3 \<Rightarrow> (c3, Inr finalResponse)))"

text \<open>
  A run of successful turns: each element of the list is a user message with the content
  the remote model answers. The run stops with the error if a call does not succeed.
\<close>

fun chats :: "Client \<Rightarrow> (string \<times> string) list \<Rightarrow> error + Client" where
  "chats c [] = Inr c"
| "chats c ((userMessage, content) # rest) =
     (case Chat (\<lambda>req. Inr content) c userMessage of
        (c', Inl err) \<Rightarrow> Inl err
      | (c', Inr reply) \<Rightarrow> chats c' rest)"

section \<open>Package audio: the capture ring\<close>

definition ringBufferSize :: nat where
  "ringBufferSize = 128"

definition maxSamplesPerChunk :: nat where
  "maxSamplesPerChunk = 2048"

record audioChunk =
  samples :: "float32 list"
  len :: int

record ringBuffer =
  chunks :: "audioChunk list"
  head :: "64 word"
  tail :: "64 word"
  dropCount :: "64 word"

definition newRingBuffer :: ringBuffer where
  "newRingBuffer =
     \<lparr> chunks = replicate ringBufferSize \<lparr> samples = replicate maxSamplesPerChunk 0, len = 0 \<rparr>,
       head = 0, tail = 0, dropCount = 0 \<rparr>"

text \<open>
  The array \<open>chunks\<close> has the fixed type \<open>[ringBufferSize]audioChunk\<close>, and every slot
  keeps the buffer of \<open>maxSamplesPerChunk\<close> samples that \<open>newRingBuffer\<close> allocated.
\<close>

definition ring_ok :: "ringBuffer \<Rightarrow> bool" where
  "ring_ok rb =
     (length (chunks rb) = ringBufferSize \<and>
      list_all (\<lambda>ch. length (samples ch) = maxSamplesPerChunk) (chunks rb))"

text \<open>
  The builtin \<open>copy(dst, src)\<close> overwrites the first \<open>min(len(dst), len(src))\<close> elements
  of \<open>dst\<close> and returns that number.
\<close>

definition go_copy :: "'a list \<Rightarrow> 'a list \<Rightarrow> 'a list \<times> nat" where
  "go_copy dst src = (let n = min (length dst) (length src) in (take n src @ drop n dst, n))"

text \<open>
  \<open>push\<close>. The log line printed at every hundredth drop has no effect on the ring.
\<close>

definition push :: "ringBuffer \<Rightarrow> float32 list \<Rightarrow> ringBuffer \<times> bool" where
  "push rb smpls =
     (let h = head rb; t = tail rb in
      if h - t \<ge> of_nat ringBufferSize then
        (rb\<lparr>dropCount := dropCount rb + 1\<rparr>, False)
      else
        (let i = unat (h mod of_nat ringBufferSize);
             slot = chunks rb ! i;
             (buf, n) = go_copy (samples slot) smpls;
             slot' = slot\<lparr>samples := buf, len := int n\<rparr>
         in (rb\<lparr>chunks := (chunks rb)[i := slot'], head := head rb + 1\<rparr>, True)))"

text \<open>
  \<open>pop\<close> returns \<open>nil\<close> (here \<open>None\<close>) when the ring is empty. The slice expression
  \<open>slot.samples[:slot.len]\<close> panics when \<open>slot.len\<close> is out of range.
\<close>

definition pop :: "ringBuffer \<Rightarrow> error + (ringBuffer \<times> float32 list option)" where
  "pop rb =
     (let h = head rb; t = tail rb in
      if h = t then Inr (rb, None)
      else
        (let slot = chunks rb ! unat (t mod of_nat ringBufferSize) in
         if len slot < 0 \<or> len slot > int (length (samples slot)) then Inl PanicSliceBounds
         else Inr (rb\<lparr>tail := tail rb + 1\<rparr>, Some (take (nat (len slot)) (samples slot)))))"

text \<open>
  The audio callback pushes every chunk it receives and ignores the result; \<open>pushes\<close>
  is a run of such calls with no \<open>pop\<close> in between.
\<close>

fun pushes :: "ringBuffer \<Rightarrow> float32 list list \<Rightarrow> ringBuffer" where
  "pushes rb [] = rb"
| "pushes rb (c # cs) = pushes (fst (push rb c)) cs"

section \<open>Package config: thread counts\<close>

text \<open>
  Of the configuration record, the fields that reach the recognizer, the synthesizer and
  the thread-count normalisation. Go's integer division truncates towards zero.
\<close>

record Config =
  WakeWord :: string
  SampleRate :: int
  STTLanguage :: string
  STTProvider :: string
  TTSProvider :: string
  TTSSpeakerID :: int
  TTSSpeed :: float32
  NumThreads :: int
  VADThreads :: int
  STTThreads :: int
  TTSThreads :: int
  cfg_Verbose :: bool

definition go_div :: "int \<Rightarrow> int \<Rightarrow> int" where
  "go_div a b = (if (a < 0) = (b < 0) then \<bar>a\<bar> div \<bar>b\<bar> else - (\<bar>a\<bar> div \<bar>b\<bar>))"

text \<open>
  \<open>normalizeThreadCounts\<close>; \<open>cpuCores\<close> is the value of \<open>runtime.NumCPU()\<close>. The
  verbose print has no effect on the configuration.
\<close>

definition normalizeThreadCounts :: "int \<Rightarrow> Config \<Rightarrow> Config" where
  "normalizeThreadCounts cpuCores c =
     (let c1 = (if NumThreads c = 0 then c\<lparr>NumThreads := max 1 (go_div cpuCores 3)\<rparr> else c);
          c2 = (if VADThreads c1 = 0 then c1\<lparr>VADThreads := 1\<rparr> else c1);
          c3 = (if STTThreads c2 = 0 then c2\<lparr>STTThreads := NumThreads c2\<rparr> else c2);
          c4 = (if TTSThreads c3 = 0 then c3\<lparr>TTSThreads := NumThreads c3\<rparr> else c3)
      in c4)"

section \<open>Package tts: the synthesizer and the sentence splitter\<close>

record tts_Config =
  tts_SpeakerID :: int
  tts_Speed :: float32
  tts_Provider :: string
  tts_Verbose :: bool
  tts_TTSThreads :: int

text \<open>
  The engine configuration handed to sherpa-onnx. The Kokoro model paths and the length
  scale are not read by any property below and are left out.
\<close>

record OfflineTtsConfig =
  tts_NumThreads :: int
  tts_ModelProvider :: string
  tts_MaxNumSentences :: int
  tts_Debug :: int

text \<open>
  An engine handle is represented by the configuration it was created with; whether
  sherpa-onnx could create the engine is the parameter \<open>created\<close>.
\<close>

record Synthesizer =
  tts :: OfflineTtsConfig
  s_sampleRate :: int
  speakerID :: int
  speed :: float32
  s_verbose :: bool

definition NewSynthesizer :: "bool \<Rightarrow> tts_Config \<Rightarrow> error + Synthesizer" where
  "NewSynthesizer created cfg =
     (let ttsConfig = \<lparr> tts_NumThreads = 2,
                        tts_ModelProvider = tts_Provider cfg,
                        tts_MaxNumSentences = 1,
                        tts_Debug = (if tts_Verbose cfg then 1 else 0) \<rparr>
      in if \<not> created then Inl ErrCreateTTS
         else Inr \<lparr> tts = ttsConfig, s_sampleRate = 24000, speakerID = tts_SpeakerID cfg,
                    speed = tts_Speed cfg, s_verbose = tts_Verbose cfg \<rparr>)"

definition isTerminator :: "rune \<Rightarrow> bool" where
  "isTerminator c = (c = byte (CHR ''.'') \<or> c = byte (CHR ''!'') \<or> c = byte (CHR ''?'')
                     \<or> c = byte (CHR 0x0A))"

text \<open>
  \<open>SplitSentences\<close>: the loop over the runes of the text carries the sentences emitted
  so far and the content of the builder \<open>current\<close>.
\<close>

fun SplitSentences_loop :: "rune list \<Rightarrow> string list \<Rightarrow> string \<Rightarrow> string list \<times> string" where
  "SplitSentences_loop [] sentences current = (sentences, current)"
| "SplitSentences_loop (c # cs) sentences current =
     (let current1 = current @ EncodeRune c in
      if isTerminator c then
        (let trimmed = TrimSpace current1;
             sentences1 = (if trimmed \<noteq> [] then sentences @ [trimmed] else sentences)
         in SplitSentences_loop cs sentences1 [])
      else SplitSentences_loop cs sentences current1)"

definition SplitSentences :: "string \<Rightarrow> string list" where
  "SplitSentences text =
     (case SplitSentences_loop (runes text) [] [] of
        (sentences, current) \<Rightarrow>
          (let trimmed = TrimSpace current in
           if trimmed \<noteq> [] then sentences @ [trimmed] else sentences))"

section \<open>Package stt: the recognizer\<close>

record stt_Config =
  stt_VADThreshold :: float32
  stt_VADSilenceDuration :: float32
  stt_SampleRate :: int
  stt_WakeWord :: string
  stt_Provider :: string
  stt_Language :: string
  stt_Verbose :: bool
  stt_VADThreads :: int
  stt_STTThreads :: int

record VadModelConfig =
  vad_Threshold :: float32
  vad_MinSilenceDuration :: float32
  vad_MinSpeechDuration :: float32
  vad_MaxSpeechDuration :: float32
  vad_WindowSize :: int
  vad_SampleRate :: int
  vad_NumThreads :: int
  vad_Debug :: int

record OfflineRecognizerConfig =
  rec_Language :: string
  rec_Task :: string
  rec_TailPaddings :: int
  rec_NumThreads :: int
  rec_Provider :: string
  rec_DecodingMethod :: string
  rec_Debug :: int

record Recognizer =
  vad :: VadModelConfig
  recognizer :: OfflineRecognizerConfig
  wakeWord :: string
  r_verbose :: bool
  r_sampleRate :: int
  vadConfig :: VadModelConfig

text \<open>
  \<open>strings.EqualFold\<close> is called once, to compare the language with \<open>auto\<close>. None of
  the letters a, u, t, o has a case variant outside ASCII, so a string equals \<open>auto\<close>
  under Unicode case folding exactly when its bytes do after folding the ASCII letters,
  which is the comparison written here.
\<close>

definition EqualFold :: "string \<Rightarrow> string \<Rightarrow> bool" where
  "EqualFold s t = (map lowerByte s = map lowerByte t)"

definition NewRecognizer :: "(rune \<Rightarrow> rune) \<Rightarrow> bool \<Rightarrow> bool \<Rightarrow> stt_Config \<Rightarrow> error + Recognizer" where
  "NewRecognizer lower vadCreated recognizerCreated cfg =
     (let vadConfig0 = \<lparr> vad_Threshold = stt_VADThreshold cfg,
                         vad_MinSilenceDuration = stt_VADSilenceDuration cfg,
                         vad_MinSpeechDuration = 0.1,
                         vad_MaxSpeechDuration = 30.0,
                         vad_WindowSize = 512,
                         vad_SampleRate = stt_SampleRate cfg,
                         vad_NumThreads = stt_VADThreads cfg,
                         vad_Debug = (if stt_Verbose cfg then 1 else 0) \<rparr>
      in if \<not> vadCreated then Inl ErrCreateVAD
         else
           (let language = (if EqualFold (stt_Language cfg) ''auto'' then [] else stt_Language cfg);
                recognizerConfig = \<lparr> rec_Language = language,
                                     rec_Task = ''transcribe'',
                                     rec_TailPaddings = -1,
                                     rec_NumThreads = stt_STTThreads cfg,
                                     rec_Provider = stt_Provider cfg,
                                     rec_DecodingMethod = ''greedy_search'',
                                     rec_Debug = (if stt_Verbose cfg then 1 else 0) \<rparr>
            in if \<not> recognizerCreated then Inl ErrCreateRecognizer
               else Inr \<lparr> vad = vadConfig0, recognizer = recognizerConfig,
                          wakeWord = ToLower lower (stt_WakeWord cfg),
                          r_verbose = stt_Verbose cfg,
                          r_sampleRate = stt_SampleRate cfg,
                          vadConfig = vadConfig0 \<rparr>))"

text \<open>
  \<open>removeWakeWord\<close>. The index is found in the lower-cased copy and applied to the
  original text; the slice expressions panic when a bound exceeds the length of the text.
  The cut set of \<open>strings.TrimLeft\<close> is the string of space, comma, full stop,
  exclamation mark, question mark, semicolon, colon, hyphen, apostrophe and double quote.
\<close>

definition wakeCutset :: string where
  "wakeCutset = '' ,.!?;:-'' @ [CHR 0x27, CHR 0x22]"

definition removeWakeWord :: "(rune \<Rightarrow> rune) \<Rightarrow> string \<Rightarrow> string \<Rightarrow> error + string" where
  "removeWakeWord lower text wake =
     (let lowerText = ToLower lower text;
          lowerWake = ToLower lower wake;
          idx = Index lowerText lowerWake
      in if idx = -1 then Inr text
         else if idx > int (length text) \<or> idx + int (length wake) > int (length text)
           then Inl PanicSliceBounds
         else
           (let result = take (nat idx) text @ drop (nat (idx + int (length wake))) text;
                result1 = TrimLeft result wakeCutset
            in Inr (TrimSpace result1)))"

text \<open>
  \<open>TranscribeSegment\<close>. The Whisper decoder is the parameter \<open>decode\<close>: it returns
  \<open>None\<close> when no stream can be created, and the decoded text otherwise.
\<close>

definition TranscribeSegment :: "(rune \<Rightarrow> rune) \<Rightarrow> (float32 list \<Rightarrow> string option) \<Rightarrow> Recognizer \<Rightarrow> float32 list \<Rightarrow> error + string" where
  "TranscribeSegment lower decode r smpls =
     (if length smpls = 0 then Inr []
      else case decode smpls of
        None \<Rightarrow> Inr []
      | Some resultText \<Rightarrow>
          (let text = TrimSpace resultText in
           if text = [] then Inr []
           else if wakeWord r \<noteq> [] then
             (let lowerText = ToLower lower text in
              if \<not> Contains lowerText (wakeWord r) then Inr []
              else case removeWakeWord lower text (wakeWord r) of
                Inl p \<Rightarrow> Inl p
              | Inr text1 \<Rightarrow>
                  (let text2 = TrimSpace text1 in
                   if text2 = [] then Inr ''Hello'' else Inr text2))
           else Inr text))"

section \<open>The orchestrator\<close>

text \<open>How \<open>main\<close> fills the configurations of the recognizer and the synthesizer.\<close>

definition main_stt_Config :: "float32 \<Rightarrow> float32 \<Rightarrow> Config \<Rightarrow> stt_Config" where
  "main_stt_Config vadThreshold vadSilenceDuration cfg =
     \<lparr> stt_VADThreshold = vadThreshold,
       stt_VADSilenceDuration = vadSilenceDuration,
       stt_SampleRate = SampleRate cfg,
       stt_WakeWord = WakeWord cfg,
       stt_Provider = STTProvider cfg,
       stt_Language = STTLanguage cfg,
       stt_Verbose = cfg_Verbose cfg,
       stt_VADThreads = VADThreads cfg,
       stt_STTThreads = STTThreads cfg \<rparr>"

definition main_tts_Config :: "Config \<Rightarrow> tts_Config" where
  "main_tts_Config cfg =
     \<lparr> tts_SpeakerID = TTSSpeakerID cfg,
       tts_Speed = TTSSpeed cfg,
       tts_Provider = TTSProvider cfg,
       tts_Verbose = cfg_Verbose cfg,
       tts_TTSThreads = TTSThreads cfg \<rparr>"

text \<open>
  \<open>sttProcessor\<close>. The interrupt flag is written by this goroutine only (the player and
  the TTS goroutine load it), so its value after an iteration is a function of its value
  before and of what the iteration receives. One iteration of the loop receives an event:
  the context is cancelled, the segment channel is closed, or a segment arrives. With a
  segment come the answer of \<open>IsSpeechDetected\<close>, the decoder's result, and whether the
  send of the transcript is cut short by cancellation.
\<close>

datatype stt_event =
    CtxDone
  | SegmentChannelClosed
  | Segment "float32 list" bool "string option" bool

record pipeline =
  interrupt :: bool
  transcriptions :: "string list"

datatype 'a step = Continue 'a | Return 'a | Panicked error

definition sttProcessor_iteration :: "(rune \<Rightarrow> rune) \<Rightarrow> Recognizer \<Rightarrow> stt_event \<Rightarrow> pipeline \<Rightarrow> pipeline step" where
  "sttProcessor_iteration lower rcg ev st =
     (case ev of
        CtxDone \<Rightarrow> Return st
      | SegmentChannelClosed \<Rightarrow> Return st
      | Segment smpls speechDetected decoded cancelled \<Rightarrow>
          (let st1 = (if speechDetected then st\<lparr>interrupt := True\<rparr> else st) in
           case TranscribeSegment lower (\<lambda>s. decoded) rcg smpls of
             Inl p \<Rightarrow> Panicked p
           | Inr text \<Rightarrow>
               if text \<noteq> [] then
                 (if cancelled then Return st1
                  else Continue (st1\<lparr>transcriptions := transcriptions st1 @ [text],
                                     interrupt := False\<rparr>))
               else Continue st1))"

fun sttProcessor :: "(rune \<Rightarrow> rune) \<Rightarrow> Recognizer \<Rightarrow> stt_event list \<Rightarrow> pipeline \<Rightarrow> pipeline step" where
  "sttProcessor lower rcg [] st = Continue st"
| "sttProcessor lower rcg (ev # evs) st =
     (case sttProcessor_iteration lower rcg ev st of
        Continue st1 \<Rightarrow> sttProcessor lower rcg evs st1
      | Return st1 \<Rightarrow> Return st1
      | Panicked p \<Rightarrow> Panicked p)"

section \<open>Package audio: the resamplers\<close>

text \<open>
  The rounding of a \<open>float64\<close> result is the parameter \<open>rnd64\<close>, that of a \<open>float32\<close>
  result is \<open>rnd32\<close>. Infinities and NaN are not real numbers: a resampler built for a
  source rate of zero is outside the model. The conversion \<open>int(x)\<close> of a float
  truncates towards zero.
\<close>

definition go_int :: "float64 \<Rightarrow> int" where
  "go_int x = (if x \<ge> 0 then \<lfloor>x\<rfloor> else \<lceil>x\<rceil>)"

record Resampler =
  fromRate :: float64
  toRate :: float64
  ratio :: float64
  lastSample :: float32

definition NewResampler :: "(real \<Rightarrow> real) \<Rightarrow> int \<Rightarrow> int \<Rightarrow> Resampler" where
  "NewResampler rnd64 fromRate0 toRate0 =
     (let ratio0 = rnd64 (rnd64 (of_int toRate0) / rnd64 (of_int fromRate0)) in
      \<lparr> fromRate = rnd64 (of_int fromRate0),
        toRate = rnd64 (of_int toRate0),
        ratio = ratio0,
        lastSample = 0 \<rparr>)"

text \<open>
  The body of the interpolation loop for the output index \<open>i\<close>. An index expression
  with a negative index panics.
\<close>

definition interpolate :: "(real \<Rightarrow> real) \<Rightarrow> (real \<Rightarrow> real) \<Rightarrow> float64 \<Rightarrow> float32 \<Rightarrow> float32 list \<Rightarrow> int \<Rightarrow> error + float32" where
  "interpolate rnd64 rnd32 ratio0 lastSample0 input i =
     (let inputLen = int (length input);
          srcPos = rnd64 (rnd64 (of_int i) / ratio0);
          srcIdx = go_int srcPos;
          frac = rnd32 (rnd64 (srcPos - rnd64 (of_int srcIdx)))
      in if srcIdx < inputLen \<and> srcIdx < 0 then Inl PanicIndexOutOfRange
         else
           (let sample1 = (if srcIdx < inputLen then input ! nat srcIdx else lastSample0) in
            if srcIdx + 1 < inputLen \<and> srcIdx + 1 < 0 then Inl PanicIndexOutOfRange
            else
              (let sample2 = (if srcIdx + 1 < inputLen then input ! nat (srcIdx + 1)
                              else if srcIdx < inputLen then input ! nat (inputLen - 1)
                              else sample1)
               in Inr (rnd32 (sample1 + rnd32 (rnd32 (sample2 - sample1) * frac))))))"

text \<open>
  The loop \<open>for i := 0; i < outputLen; i++ { output[i] = ... }\<close>: \<open>fill_output body i k\<close>
  computes the \<open>k\<close> elements from index \<open>i\<close> on, and stops at the first panic.
\<close>

fun fill_output :: "(int \<Rightarrow> error + float32) \<Rightarrow> int \<Rightarrow> nat \<Rightarrow> error + float32 list" where
  "fill_output body i 0 = Inr []"
| "fill_output body i (Suc k) =
     (case body i of
        Inl p \<Rightarrow> Inl p
      | Inr y \<Rightarrow>
          (case fill_output body (i + 1) k of
             Inl p \<Rightarrow> Inl p
           | Inr ys \<Rightarrow> Inr (y # ys)))"

text \<open>\<open>Resampler.Resample\<close>; \<open>make\<close> panics on a negative length.\<close>

definition Resampler_Resample :: "(real \<Rightarrow> real) \<Rightarrow> (real \<Rightarrow> real) \<Rightarrow> Resampler \<Rightarrow> float32 list \<Rightarrow> error + (Resampler \<times> float32 list)" where
  "Resampler_Resample rnd64 rnd32 r input =
     (if ratio r = 1 then Inr (r, input)
      else
        (let inputLen = int (length input) in
         if inputLen = 0 then Inr (r, input)
         else
           (let outputLen = go_int (rnd64 (rnd64 (of_int inputLen) * ratio r)) in
            if outputLen < 0 then Inl PanicMakeSliceLen
            else
              (case fill_output (interpolate rnd64 rnd32 (ratio r) (lastSample r) input) 0
                      (nat outputLen) of
                 Inl p \<Rightarrow> Inl p
               | Inr output \<Rightarrow>
                   Inr (r\<lparr>lastSample := input ! nat (inputLen - 1)\<rparr>, output)))))"

definition ResampleInPlace :: "(real \<Rightarrow> real) \<Rightarrow> (real \<Rightarrow> real) \<Rightarrow> float32 list \<Rightarrow> int \<Rightarrow> int \<Rightarrow> error + float32 list" where
  "ResampleInPlace rnd64 rnd32 input fromRate0 toRate0 =
     (if fromRate0 = toRate0 then Inr input
      else
        (case Resampler_Resample rnd64 rnd32 (NewResampler rnd64 fromRate0 toRate0) input of
           Inl p \<Rightarrow> Inl p
         | Inr (r, output) \<Rightarrow> Inr output))"

record PolyphaseResampler =
  p_fromRate :: int
  p_toRate :: int
  p_ratio :: float64
  p_filterLen :: int
  p_filter :: "float32 list"
  p_history :: "float32 list"
  p_lastSample :: float32

text \<open>
  \<open>NewPolyphaseResampler\<close>. The 64 coefficients of the windowed-sinc filter are computed
  with \<open>math.Sin\<close> and \<open>math.Cos\<close> and then normalised; the parameter \<open>design\<close> stands
  for that computation: \<open>design cutoff i\<close> is the coefficient at index \<open>i\<close>.
\<close>

definition NewPolyphaseResampler :: "(real \<Rightarrow> real) \<Rightarrow> (float64 \<Rightarrow> nat \<Rightarrow> float32) \<Rightarrow> int \<Rightarrow> int \<Rightarrow> PolyphaseResampler" where
  "NewPolyphaseResampler rnd64 design fromRate0 toRate0 =
     (let ratio0 = rnd64 (rnd64 (of_int toRate0) / rnd64 (of_int fromRate0));
          filterLen = 64;
          cutoff = (if ratio0 < 1 then rnd64 (ratio0 * 0.5) else 0.5);
          flt = map (design cutoff) [0..<nat filterLen]
      in \<lparr> p_fromRate = fromRate0,
           p_toRate = toRate0,
           p_ratio = ratio0,
           p_filterLen = filterLen,
           p_filter = flt,
           p_history = replicate (nat filterLen) 0,
           p_lastSample = 0 \<rparr>)"

definition upsample :: "(real \<Rightarrow> real) \<Rightarrow> (real \<Rightarrow> real) \<Rightarrow> PolyphaseResampler \<Rightarrow> float32 list \<Rightarrow> error + (PolyphaseResampler \<times> float32 list)" where
  "upsample rnd64 rnd32 r input =
     (let inputLen = int (length input);
          outputLen = go_int (rnd64 (rnd64 (of_int inputLen) * p_ratio r))
      in if outputLen < 0 then Inl PanicMakeSliceLen
         else
           (case fill_output (interpolate rnd64 rnd32 (p_ratio r) (p_lastSample r) input) 0
                   (nat outputLen) of
              Inl p \<Rightarrow> Inl p
            | Inr output \<Rightarrow>
                Inr (if inputLen > 0 then r\<lparr>p_lastSample := input ! nat (inputLen - 1)\<rparr> else r,
                     output)))"

text \<open>
  The inner loop of \<open>downsample\<close> over the filter taps: \<open>fir_loop\<close> runs the \<open>k\<close> taps
  from \<open>j\<close> on with the accumulator \<open>sample\<close>. The tap \<open>r.filter[j]\<close> is read only when
  the index into the combined buffer is in range.
\<close>

fun fir_loop :: "(real \<Rightarrow> real) \<Rightarrow> float32 list \<Rightarrow> float32 list \<Rightarrow> int \<Rightarrow> int \<Rightarrow> int \<Rightarrow> nat \<Rightarrow> float32 \<Rightarrow> error + float32" where
  "fir_loop rnd32 flt combined srcIdx filterLen j 0 sample = Inr sample"
| "fir_loop rnd32 flt combined srcIdx filterLen j (Suc k) sample =
     (let idx = srcIdx - go_div filterLen 2 + j in
      if idx \<ge> 0 \<and> idx < int (length combined) then
        (if j < 0 \<or> j \<ge> int (length flt) then Inl PanicIndexOutOfRange
         else fir_loop rnd32 flt combined srcIdx filterLen (j + 1) k
                (rnd32 (sample + rnd32 (combined ! nat idx * flt ! nat j))))
      else fir_loop rnd32 flt combined srcIdx filterLen (j + 1) k sample)"

definition downsample_at :: "(real \<Rightarrow> real) \<Rightarrow> (real \<Rightarrow> real) \<Rightarrow> PolyphaseResampler \<Rightarrow> float32 list \<Rightarrow> int \<Rightarrow> error + float32" where
  "downsample_at rnd64 rnd32 r combined i =
     (let srcPos = rnd64 (rnd64 (of_int i) / p_ratio r);
          srcIdx = go_int srcPos + int (length (p_history r))
      in fir_loop rnd32 (p_filter r) combined srcIdx (p_filterLen r) 0 (nat (p_filterLen r)) 0)"

text \<open>
  The update of the history at the end of \<open>downsample\<close>. A slice expression \<open>s[low:]\<close>
  panics unless \<open>0 \<le> low \<le> len(s)\<close>.
\<close>

definition update_history :: "PolyphaseResampler \<Rightarrow> float32 list \<Rightarrow> error + PolyphaseResampler" where
  "update_history r input =
     (let inputLen = int (length input); filterLen = p_filterLen r in
      if inputLen \<ge> filterLen then
        (if inputLen - filterLen < 0 \<or> inputLen - filterLen > inputLen then Inl PanicSliceBounds
         else Inr (r\<lparr>p_history :=
                      fst (go_copy (p_history r) (drop (nat (inputLen - filterLen)) input))\<rparr>))
      else
        (let shift = filterLen - inputLen in
         if inputLen > int (length (p_history r)) then Inl PanicSliceBounds
         else
           (let h1 = fst (go_copy (p_history r) (drop (nat inputLen) (p_history r))) in
            if shift < 0 \<or> shift > int (length h1) then Inl PanicSliceBounds
            else Inr (r\<lparr>p_history :=
                         take (nat shift) h1 @ fst (go_copy (drop (nat shift) h1) input)\<rparr>))))"

definition downsample :: "(real \<Rightarrow> real) \<Rightarrow> (real \<Rightarrow> real) \<Rightarrow> PolyphaseResampler \<Rightarrow> float32 list \<Rightarrow> error + (PolyphaseResampler \<times> float32 list)" where
  "downsample rnd64 rnd32 r input =
     (let inputLen = int (length input);
          outputLen = go_int (rnd64 (rnd64 (of_int inputLen) * p_ratio r))
      in if outputLen < 0 then Inl PanicMakeSliceLen
         else
           (let combined = p_history r @ input in
            case fill_output (downsample_at rnd64 rnd32 r combined) 0 (nat outputLen) of
              Inl p \<Rightarrow> Inl p
            | Inr output \<Rightarrow>
                (case update_history r input of
                   Inl p \<Rightarrow> Inl p
                 | Inr r1 \<Rightarrow> Inr (r1, output))))"

definition PolyphaseResampler_Resample :: "(real \<Rightarrow> real) \<Rightarrow> (real \<Rightarrow> real) \<Rightarrow> PolyphaseResampler \<Rightarrow> float32 list \<Rightarrow> error + (PolyphaseResampler \<times> float32 list)" where
  "PolyphaseResampler_Resample rnd64 rnd32 r input =
     (if p_ratio r = 1 then Inr (r, input)
      else
        (let inputLen = int (length input) in
         if inputLen = 0 then Inr (r, input)
         else if p_ratio r > 1 then upsample rnd64 rnd32 r input
         else downsample rnd64 rnd32 r input))"

section \<open>Examples\<close>

text \<open>
  The examples are run with the following excerpt of the case tables: the ASCII capital
  letters, U+0130 (whose lower-case variant is the ASCII letter i) and U+023A (whose
  lower-case variant is U+2C65, one byte longer in UTF-8). The examples contain no
  other rune that has a lower-case variant.
\<close>

definition lowerExample :: "rune \<Rightarrow> rune" where
  "lowerExample r =
     (if 0x41 \<le> r \<and> r \<le> 0x5A then r + 32
      else if r = 0x130 then 0x69
      else if r = 0x23A then 0x2C65
      else r)"

text \<open>A decoder that returns the same text for every segment.\<close>

definition decodeTo :: "string \<Rightarrow> float32 list \<Rightarrow> string option" where
  "decodeTo raw smpls = Some raw"

definition exampleConfig :: stt_Config where
  "exampleConfig =
     \<lparr> stt_VADThreshold = 0.5, stt_VADSilenceDuration = 0.8, stt_SampleRate = 16000,
       stt_WakeWord = ''Hey Assistant'', stt_Provider = ''cpu'', stt_Language = ''en'',
       stt_Verbose = False, stt_VADThreads = 1, stt_STTThreads = 2 \<rparr>"

definition exampleVad :: VadModelConfig where
  "exampleVad =
     \<lparr> vad_Threshold = 0.5, vad_MinSilenceDuration = 0.8, vad_MinSpeechDuration = 0.1,
       vad_MaxSpeechDuration = 30.0, vad_WindowSize = 512, vad_SampleRate = 16000,
       vad_NumThreads = 1, vad_Debug = 0 \<rparr>"

definition exampleRecognizer :: Recognizer where
  "exampleRecognizer =
     \<lparr> vad = exampleVad,
       recognizer = \<lparr> rec_Language = ''en'', rec_Task = ''transcribe'', rec_TailPaddings = -1,
                      rec_NumThreads = 2, rec_Provider = ''cpu'',
                      rec_DecodingMethod = ''greedy_search'', rec_Debug = 0 \<rparr>,
       wakeWord = ''hey assistant'', r_verbose = False, r_sampleRate = 16000,
       vadConfig = exampleVad \<rparr>"

section \<open>Properties\<close>

subsection \<open>The conversation client\<close>

lemma wrap64_id: "- (2 ^ 63) \<le> x \<Longrightarrow> x < 2 ^ 63 \<Longrightarrow> wrap64 x = x"
  unfolding wrap64_def by (simp add: mod_pos_pos_trivial)

lemma trimHistory_in_range:
  assumes M: "1 \<le> maxHistory c" "maxHistory c < 2 ^ 62"
    and h: "history c = s # rest"
    and L: "int (length (history c)) \<le> 3 + 2 * maxHistory c"
  shows "trimHistory c =
     Inr (if int (length (history c)) > 1 + 2 * maxHistory c
          then c\<lparr>history := s # drop (length (history c) - nat (2 * maxHistory c)) (history c)\<rparr>
          else c)"
proof -
  have w1: "wrap64 (maxHistory c * 2) = 2 * maxHistory c"
    using M by (intro wrap64_id[THEN trans]) auto
  have w2: "wrap64 (1 + 2 * maxHistory c) = 1 + 2 * maxHistory c"
    using M by (intro wrap64_id) auto
  show ?thesis
  proof (cases "int (length (history c)) > 1 + 2 * maxHistory c")
    case False
    then show ?thesis by (simp add: trimHistory_def w1 w2)
  next
    case True
    have w3: "wrap64 (int (length (history c)) - 2 * maxHistory c) = int (length (history c)) - 2 * maxHistory c"
      using M True L by (intro wrap64_id) auto
    have n: "nat (int (length (history c)) - 2 * maxHistory c) = length (history c) - nat (2 * maxHistory c)"
      using M by (simp add: nat_diff_distrib')
    from True M have "\<not> (int (length (history c)) - 2 * maxHistory c < 0)"
      "\<not> (int (length (history c)) - 2 * maxHistory c > int (length (history c)))" by auto
    with True show ?thesis
      unfolding trimHistory_def Let_def w1 w2 w3 n by (simp add: h)
  qed
qed

lemma Chat_success_in_range:
  assumes M: "1 \<le> maxHistory c" "maxHistory c < 2 ^ 62"
    and h: "history c = s # rest"
    and L: "int (length (history c)) \<le> 1 + 2 * maxHistory c"
  shows "\<exists>c'. Chat (\<lambda>req. Inr content) c userMessage = (c', Inr (TrimSpace content))
           \<and> maxHistory c' = maxHistory c
           \<and> (\<exists>rest'. history c' = s # rest')
           \<and> int (length (history c')) = min (int (length (history c)) + 2) (1 + 2 * maxHistory c)"
proof -
  define c2 where "c2 = c\<lparr>history := history c @ [\<lparr> Role = ''user'', Content = userMessage \<rparr>]
                          @ [\<lparr> Role = ''assistant'', Content = TrimSpace content \<rparr>]\<rparr>"
  have h2: "history c2 = s # (rest @ [\<lparr> Role = ''user'', Content = userMessage \<rparr>,
                          \<lparr> Role = ''assistant'', Content = TrimSpace content \<rparr>])"
    by (simp add: c2_def h)
  have m2: "maxHistory c2 = maxHistory c" by (simp add: c2_def)
  have l2: "int (length (history c2)) = int (length (history c)) + 2" by (simp add: c2_def)
  have L2: "int (length (history c2)) \<le> 3 + 2 * maxHistory c2" unfolding l2 m2 using L by linarith
  have t: "trimHistory c2 =
     Inr (if int (length (history c2)) > 1 + 2 * maxHistory c2
          then c2\<lparr>history := s # drop (length (history c2) - nat (2 * maxHistory c2)) (history c2)\<rparr>
          else c2)"
    using M L2 by (intro trimHistory_in_range[OF _ _ h2]) (simp_all add: m2)
  have C: "Chat (\<lambda>req. Inr content) c userMessage =
      (case trimHistory c2 of Inl p \<Rightarrow> (c2, Inl p) | Inr c3 \<Rightarrow> (c3, Inr (TrimSpace content)))"
    by (simp add: Chat_def c2_def Let_def split: sum.splits)
  show ?thesis
  proof (cases "int (length (history c2)) > 1 + 2 * maxHistory c2")
    case False
    with t C have "Chat (\<lambda>req. Inr content) c userMessage = (c2, Inr (TrimSpace content))" by simp
    moreover have "int (length (history c2)) = min (int (length (history c)) + 2) (1 + 2 * maxHistory c)"
      using False l2 m2 by simp
    ultimately show ?thesis using m2 h2 by auto
  next
    case True
    define c3 where "c3 = c2\<lparr>history := s # drop (length (history c2) - nat (2 * maxHistory c2)) (history c2)\<rparr>"
    from True t C have "Chat (\<lambda>req. Inr content) c userMessage = (c3, Inr (TrimSpace content))"
      by (simp add: c3_def)
    moreover have "int (length (history c3)) = 1 + 2 * maxHistory c"
      using True M m2 by (simp add: c3_def)
    moreover have "maxHistory c3 = maxHistory c" by (simp add: c3_def m2)
    moreover have "\<exists>rest'. history c3 = s # rest'" by (simp add: c3_def)
    ultimately show ?thesis using True l2 m2 by auto
  qed
qed

lemma chats_in_range:
  assumes M: "1 \<le> maxHistory c" "maxHistory c < 2 ^ 62"
    and h: "history c = s # rest"
    and L: "int (length (history c)) \<le> 1 + 2 * maxHistory c"
  shows "\<exists>c'. chats c turns = Inr c'
           \<and> maxHistory c' = maxHistory c
           \<and> (\<exists>rest'. history c' = s # rest')
           \<and> int (length (history c')) = min (int (length (history c)) + 2 * int (length turns)) (1 + 2 * maxHistory c)"
  using assms
proof (induction turns arbitrary: c rest)
  case Nil
  then show ?case by simp
next
  case (Cons t turns)
  obtain u content where t: "t = (u, content)" by (cases t)
  from Chat_success_in_range[OF Cons.prems, of content u]
  obtain c1 rest1 where c1: "Chat (\<lambda>req. Inr content) c u = (c1, Inr (TrimSpace content))"
    "maxHistory c1 = maxHistory c" "history c1 = s # rest1"
    "int (length (history c1)) = min (int (length (history c)) + 2) (1 + 2 * maxHistory c)"
    by blast
  have "int (length (history c1)) \<le> 1 + 2 * maxHistory c1" using c1 by simp
  from Cons.IH[OF _ _ c1(3) this] Cons.prems c1(2)
  obtain c' where c': "chats c1 turns = Inr c'" "maxHistory c' = maxHistory c1"
     "\<exists>rest'. history c' = s # rest'"
     "int (length (history c')) = min (int (length (history c1)) + 2 * int (length turns)) (1 + 2 * maxHistory c1)"
    by auto
  have "chats c (t # turns) = Inr c'" using c1(1) c'(1) by (simp add: t)
  moreover have "int (length (history c')) = min (int (length (history c)) + 2 * int (length (t # turns))) (1 + 2 * maxHistory c)"
    using c'(4) c1(2,4) by auto
  ultimately show ?case using c'(2,3) c1(2) by auto
qed


lemma trimHistory_hd:
  "trimHistory c = Inr c1 \<Longrightarrow> history c \<noteq> [] \<Longrightarrow> history c1 \<noteq> [] \<and> history c1 ! 0 = history c ! 0"
  by (auto simp: trimHistory_def Let_def split: if_splits list.splits)

text \<open>
  Claim C1. Take a client freshly built by \<open>NewClient\<close> with a configured maximum
  history \<open>M \<ge> 1\<close> (and \<open>M < 2^62\<close>, so that the 64-bit computation of \<open>1 + 2 * M\<close>
  does not wrap). After any \<open>K\<close> successful chat turns the history has
  \<open>min (1 + 2 * K) (1 + 2 * M)\<close> elements and its element at index 0 is the system turn
  built from the configured prompt; \<open>trimHistory\<close> and \<open>ClearHistory\<close> succeed on that
  client and keep the system turn at index 0.
\<close>

theorem history_after_successful_turns:
  assumes new: "NewClient url_Parse cfg = Inr c0"
    and M: "1 \<le> MaxHistory cfg" "MaxHistory cfg < 2 ^ 62"
  shows "\<exists>c. chats c0 turns = Inr c
           \<and> int (length (history c)) = min (1 + 2 * int (length turns)) (1 + 2 * MaxHistory cfg)
           \<and> history c ! 0 = \<lparr>Role = ''system'', Content = SystemPrompt cfg\<rparr>
           \<and> (\<exists>c1. trimHistory c = Inr c1 \<and> history c1 ! 0 = history c ! 0)
           \<and> (\<exists>c2. ClearHistory spare c = Inr c2 \<and> history c2 = [history c ! 0])"
proof -
  let ?s = "\<lparr>Role = ''system'', Content = SystemPrompt cfg\<rparr>"
  from new M have c0: "maxHistory c0 = MaxHistory cfg" "history c0 = ?s # []"
    by (auto simp: NewClient_def Let_def split: sum.splits)
  have "int (length (history c0)) \<le> 1 + 2 * maxHistory c0" using c0 M by simp
  from chats_in_range[OF _ _ c0(2) this, of turns] M c0(1)
  obtain c rest where c: "chats c0 turns = Inr c" "maxHistory c = maxHistory c0"
    "history c = ?s # rest"
    "int (length (history c)) = min (int (length (history c0)) + 2 * int (length turns)) (1 + 2 * maxHistory c0)"
    by auto
  have len: "int (length (history c)) = min (1 + 2 * int (length turns)) (1 + 2 * MaxHistory cfg)"
    using c(4) c0 by simp
  have "int (length (history c)) \<le> 3 + 2 * maxHistory c" using len c(2) c0(1) by simp
  from trimHistory_in_range[OF _ _ c(3) this] M c(2) c0(1) len
  have "trimHistory c = Inr c" by simp
  moreover have "ClearHistory spare c = Inr (c\<lparr>history := [?s]\<rparr>)"
    by (simp add: ClearHistory_def c(3))
  ultimately show ?thesis using c(1) len c(3) by auto
qed

theorem history_after_successful_turns_witness:
  "NewClient (\<lambda>h. Inr h)
      \<lparr>Host = ''http://localhost:11434/'', Model = ''gemma3:1b'', SystemPrompt = ''Be brief.'',
       Verbose = False, MaxHistory = 1, Temperature = 0.7\<rparr>
     = Inr \<lparr>client = ''http://localhost:11434'', model = ''gemma3:1b'',
            history = [\<lparr>Role = ''system'', Content = ''Be brief.''\<rparr>],
            verbose = False, maxHistory = 1, temperature = 0.7\<rparr>
   \<and> (\<exists>c. chats \<lparr>client = ''http://localhost:11434'', model = ''gemma3:1b'',
            history = [\<lparr>Role = ''system'', Content = ''Be brief.''\<rparr>],
            verbose = False, maxHistory = 1, temperature = 0.7\<rparr>
          [(''hi'', ''hello''), (''what time is it'', ''noon'')] = Inr c
        \<and> int (length (history c)) = 3
        \<and> history c ! 0 = \<lparr>Role = ''system'', Content = ''Be brief.''\<rparr>)"
proof -
  let ?cfg = "\<lparr>Host = ''http://localhost:11434/'', Model = ''gemma3:1b'', SystemPrompt = ''Be brief.'',
       Verbose = False, MaxHistory = 1, Temperature = 0.7\<rparr>"
  let ?c0 = "\<lparr>client = ''http://localhost:11434'', model = ''gemma3:1b'',
            history = [\<lparr>Role = ''system'', Content = ''Be brief.''\<rparr>],
            verbose = False, maxHistory = 1, temperature = 0.7\<rparr>"
  have new: "NewClient (\<lambda>h. Inr h) ?cfg = Inr ?c0"
    by (simp add: NewClient_def TrimSuffix_def suffix_def)
  have M: "1 \<le> MaxHistory ?cfg" "MaxHistory ?cfg < 2 ^ 62" by simp_all
  show ?thesis
    using new history_after_successful_turns [OF new M, of "[(''hi'', ''hello''), (''what time is it'', ''noon'')]"]
    by auto
qed

text \<open>
  Claim C2. When the chat completion request fails, \<open>Chat\<close> returns the wrapped error,
  but the history is not what it was before the call: the user turn of the failing
  exchange has been appended and stays there. (No assistant turn is appended.)
\<close>

theorem Chat_failed_request_history:
  "Chat (\<lambda>req. Inl e) c userMessage =
     (c\<lparr>history := history c @ [\<lparr>Role = ''user'', Content = userMessage\<rparr>]\<rparr>,
      Inl (ErrChatRequestFailed e))
   \<and> history (fst (Chat (\<lambda>req. Inl e) c userMessage)) \<noteq> history c"
  by (simp add: Chat_def)

text \<open>
  Claim C10. When the host URL parses, \<open>NewClient\<close> returns a client whose effective
  maximum history is 10 if the configured \<open>MaxHistory\<close> is less than or equal to 0, and
  the configured value otherwise. In the first case the history holds at most 21 turns
  after any run of successful chat turns.
\<close>

theorem NewClient_effective_maxHistory:
  assumes "url_Parse (TrimSuffix (Host cfg) ''/'') = Inr u"
  shows "\<exists>c. NewClient url_Parse cfg = Inr c
     \<and> maxHistory c = (if MaxHistory cfg \<le> 0 then 10 else MaxHistory cfg)
     \<and> (MaxHistory cfg \<le> 0 \<longrightarrow> (\<forall>turns. \<exists>c'. chats c turns = Inr c' \<and> length (history c') \<le> 21))"
proof -
  let ?s = "\<lparr>Role = ''system'', Content = SystemPrompt cfg\<rparr>"
  obtain c where c: "NewClient url_Parse cfg = Inr c"
    "maxHistory c = (if MaxHistory cfg \<le> 0 then 10 else MaxHistory cfg)"
    "history c = ?s # []"
    using assms by (simp add: NewClient_def Let_def)
  have "\<exists>c'. chats c turns = Inr c' \<and> length (history c') \<le> 21" if "MaxHistory cfg \<le> 0" for turns
  proof -
    from that c(2) have m: "maxHistory c = 10" by simp
    have "int (length (history c)) \<le> 1 + 2 * maxHistory c" using c(3) m by simp
    from chats_in_range[OF _ _ c(3) this, of turns] m
    obtain c' where "chats c turns = Inr c'"
      "int (length (history c')) = min (int (length (history c)) + 2 * int (length turns)) (1 + 2 * maxHistory c)"
      by auto
    then show ?thesis using m by auto
  qed
  with c show ?thesis by blast
qed

theorem NewClient_effective_maxHistory_witness:
  "(\<exists>c. NewClient (\<lambda>h. Inr h)
           \<lparr>Host = ''http://localhost:11434'', Model = ''gemma3:1b'', SystemPrompt = ''Be brief.'',
            Verbose = False, MaxHistory = 0, Temperature = 0.7\<rparr> = Inr c
        \<and> maxHistory c = 10
        \<and> (\<exists>c'. chats c [(''hi'', ''hello'')] = Inr c' \<and> length (history c') \<le> 21))
   \<and> (\<exists>c. NewClient (\<lambda>h. Inr h)
           \<lparr>Host = ''http://localhost:11434'', Model = ''gemma3:1b'', SystemPrompt = ''Be brief.'',
            Verbose = False, MaxHistory = 5, Temperature = 0.7\<rparr> = Inr c
        \<and> maxHistory c = 5)"
proof -
  let ?cfg0 = "\<lparr>Host = ''http://localhost:11434'', Model = ''gemma3:1b'', SystemPrompt = ''Be brief.'',
            Verbose = False, MaxHistory = 0, Temperature = 0.7\<rparr>"
  let ?cfg5 = "\<lparr>Host = ''http://localhost:11434'', Model = ''gemma3:1b'', SystemPrompt = ''Be brief.'',
            Verbose = False, MaxHistory = 5, Temperature = 0.7\<rparr>"
  have p0: "(\<lambda>h. Inr h) (TrimSuffix (Host ?cfg0) ''/'') = (Inr ''http://localhost:11434'' :: error + string)"
    by (simp add: TrimSuffix_def suffix_def)
  have p5: "(\<lambda>h. Inr h) (TrimSuffix (Host ?cfg5) ''/'') = (Inr ''http://localhost:11434'' :: error + string)"
    by (simp add: TrimSuffix_def suffix_def)
  show ?thesis
    using NewClient_effective_maxHistory [of "\<lambda>h. Inr h" ?cfg0 "''http://localhost:11434''", OF p0]
      NewClient_effective_maxHistory [of "\<lambda>h. Inr h" ?cfg5 "''http://localhost:11434''", OF p5]
    by fastforce
qed

subsection \<open>The capture ring\<close>

lemma slot_index_less: "unat ((h :: 64 word) mod of_nat ringBufferSize) < ringBufferSize"
  by (simp add: ringBufferSize_def unat_mod) 

lemma take_go_copy:
  "take (snd (go_copy dst src)) (fst (go_copy dst src)) = take (length dst) src"
  by (simp add: go_copy_def Let_def min_def)

lemma length_go_copy: "length (fst (go_copy dst src)) = length dst"
  by (simp add: go_copy_def Let_def)

lemma snd_go_copy: "snd (go_copy dst src) = min (length dst) (length src)"
  by (simp add: go_copy_def Let_def)

lemma push_when_full:
  "head rb - tail rb \<ge> of_nat ringBufferSize \<Longrightarrow>
   push rb smpls = (rb\<lparr>dropCount := dropCount rb + 1\<rparr>, False)"
  by (simp add: push_def)

text \<open>
  Claim C4, as the code has it. In every state in which the ring is full
  (\<open>head - tail \<ge> ringBufferSize\<close>), \<open>push\<close> returns \<open>false\<close> at once and changes
  nothing but the drop counter, which it increments: the chunk being pushed is the one
  that is dropped; the slots, \<open>head\<close> and \<open>tail\<close> are as before, so the oldest unread
  chunk is still the next one the consumer pops. \<open>push\<close> has no loop and takes no lock.
\<close>

theorem push_full_drops_new_chunk:
  assumes "head rb - tail rb \<ge> of_nat ringBufferSize"
  shows "push rb smpls = (rb\<lparr>dropCount := dropCount rb + 1\<rparr>, False)"
  using assms by (rule push_when_full)

text \<open>
  Claim C9. When the ring is not full, \<open>push\<close> stores at most \<open>maxSamplesPerChunk\<close>
  (2048) samples in the slot at \<open>head mod ringBufferSize\<close>: the slot's length is the
  minimum of the chunk's length and 2048, the consumer that pops this slot receives the
  first 2048 samples of the chunk and nothing of its tail, and the drop counter is
  unchanged.
\<close>

theorem push_truncates_chunk:
  assumes ok: "ring_ok rb" and room: "\<not> head rb - tail rb \<ge> of_nat ringBufferSize"
  shows "\<exists>rb'. push rb smpls = (rb', True)
     \<and> head rb' = head rb + 1 \<and> tail rb' = tail rb \<and> dropCount rb' = dropCount rb
     \<and> ring_ok rb'
     \<and> len (chunks rb' ! unat (head rb mod of_nat ringBufferSize))
         = int (min (length smpls) maxSamplesPerChunk)
     \<and> pop (rb'\<lparr>tail := head rb\<rparr>)
         = Inr (rb'\<lparr>tail := head rb + 1\<rparr>, Some (take maxSamplesPerChunk smpls))"
proof -
  define i where "i = unat (head rb mod of_nat ringBufferSize)"
  define slot where "slot = chunks rb ! i"
  define slot' where "slot' = slot\<lparr>samples := fst (go_copy (samples slot) smpls),
                                  len := int (snd (go_copy (samples slot) smpls))\<rparr>"
  define rb' where "rb' = rb\<lparr>chunks := (chunks rb)[i := slot'], head := head rb + 1\<rparr>"
  have i: "i < length (chunks rb)"
    using ok slot_index_less[of "head rb"] by (simp add: ring_ok_def i_def)
  have sl: "length (samples slot) = maxSamplesPerChunk"
    using ok i by (simp add: ring_ok_def slot_def list_all_length)
  have p: "push rb smpls = (rb', True)"
    using room by (simp add: push_def Let_def rb'_def slot'_def slot_def i_def split: prod.splits)
  have ok': "ring_ok rb'"
    using ok i sl
    by (auto simp: ring_ok_def rb'_def slot'_def list_all_length nth_list_update length_go_copy)
  have s': "chunks rb' ! i = slot'" using i by (simp add: rb'_def)
  have l': "len slot' = int (min (length smpls) maxSamplesPerChunk)"
    by (simp add: slot'_def snd_go_copy sl min.commute)
  have t': "take (nat (len slot')) (samples slot') = take maxSamplesPerChunk smpls"
    using take_go_copy[of "samples slot" smpls] by (simp add: slot'_def sl)
  have ne: "head rb + 1 \<noteq> head rb" by simp
  have b: "\<not> (len slot' < 0 \<or> len slot' > int (length (samples slot')))"
    by (simp add: l') (simp add: slot'_def length_go_copy sl)
  have "pop (rb'\<lparr>tail := head rb\<rparr>)
         = Inr (rb'\<lparr>tail := head rb + 1\<rparr>, Some (take maxSamplesPerChunk smpls))"
    using ne b t' s' i by (simp add: pop_def Let_def rb'_def i_def[symmetric])
  then show ?thesis
    using p ok' l' s' by (auto simp: rb'_def i_def)
qed


lemma unat_small: "k < 128 \<Longrightarrow> unat (of_nat k :: 64 word) = k"
  by (simp add: unat_of_nat take_bit_nat_eq_self)

lemma not_full_of_nat:
  "k < ringBufferSize \<Longrightarrow> \<not> (of_nat k :: 64 word) - 0 \<ge> of_nat ringBufferSize"
  by (simp add: ringBufferSize_def word_le_nat_alt unat_small)

lemma pushes_counters:
  assumes "tail rb = 0" "head rb = of_nat k" "k + length cs \<le> ringBufferSize"
  shows "tail (pushes rb cs) = 0 \<and> head (pushes rb cs) = of_nat (k + length cs)
         \<and> dropCount (pushes rb cs) = dropCount rb"
  using assms
proof (induction cs arbitrary: rb k)
  case Nil
  then show ?case by simp
next
  case (Cons c cs)
  have k: "k < ringBufferSize" using Cons.prems by simp
  have nf: "\<not> head rb - tail rb \<ge> of_nat ringBufferSize"
    using not_full_of_nat[OF k] Cons.prems by simp
  have st: "tail (fst (push rb c)) = 0" "head (fst (push rb c)) = of_nat (Suc k)"
    "dropCount (fst (push rb c)) = dropCount rb"
    using nf Cons.prems by (simp_all add: push_def Let_def split: prod.splits)
  from Cons.IH[OF st(1,2)] Cons.prems st(3) show ?case by simp
qed

theorem push_full_drops_new_chunk_witness:
  "head (newRingBuffer\<lparr>head := 128\<rparr>) - tail (newRingBuffer\<lparr>head := 128\<rparr>) \<ge> of_nat ringBufferSize
   \<and> push (newRingBuffer\<lparr>head := 128\<rparr>) [1, 2]
        = (newRingBuffer\<lparr>head := 128, dropCount := 1\<rparr>, False)"
proof -
  have f: "head (newRingBuffer\<lparr>head := 128\<rparr>) - tail (newRingBuffer\<lparr>head := 128\<rparr>) \<ge> of_nat ringBufferSize"
    by (simp add: newRingBuffer_def ringBufferSize_def)
  show ?thesis
    using f push_full_drops_new_chunk [OF f, of "[1, 2]"]
    by (simp add: newRingBuffer_def)
qed

text \<open>
  Claim C4 as stated fails: fill the fresh ring with 128 chunks and push one more. The
  push returns \<open>false\<close>; the tail has not moved, and the slots are those of the full
  ring, so the oldest chunk was not dropped and the new chunk was not stored.
\<close>

theorem push_full_keeps_oldest_counterexample:
  "head (pushes newRingBuffer (replicate 128 [1])) - tail (pushes newRingBuffer (replicate 128 [1])) = 128
   \<and> push (pushes newRingBuffer (replicate 128 [1])) [2]
        = ((pushes newRingBuffer (replicate 128 [1]))\<lparr>dropCount := 1\<rparr>, False)
   \<and> tail (fst (push (pushes newRingBuffer (replicate 128 [1])) [2])) = 0
   \<and> chunks (fst (push (pushes newRingBuffer (replicate 128 [1])) [2]))
        = chunks (pushes newRingBuffer (replicate 128 [1]))"
proof -
  let ?F = "pushes newRingBuffer (replicate 128 [1])"
  have c: "tail ?F = 0" "head ?F = 128" "dropCount ?F = 0"
    using pushes_counters[of newRingBuffer 0 "replicate 128 [1]"]
    by (simp_all add: newRingBuffer_def ringBufferSize_def)
  have full: "head ?F - tail ?F \<ge> of_nat ringBufferSize"
    by (simp add: c ringBufferSize_def)
  have p: "push ?F [2] = (?F\<lparr>dropCount := 1\<rparr>, False)"
    using push_when_full[OF full, of "[2]"] by (simp add: c)
  show ?thesis unfolding p by (simp add: c)
qed

theorem push_truncates_chunk_witness:
  "ring_ok newRingBuffer
   \<and> \<not> head newRingBuffer - tail newRingBuffer \<ge> of_nat ringBufferSize
   \<and> (\<exists>rb'. push newRingBuffer (replicate 3000 0.5) = (rb', True)
        \<and> dropCount rb' = 0
        \<and> len (chunks rb' ! 0) = 2048
        \<and> pop (rb'\<lparr>tail := 0\<rparr>) = Inr (rb'\<lparr>tail := 1\<rparr>, Some (replicate 2048 0.5)))"
proof -
  have ok: "ring_ok newRingBuffer"
    by (simp add: ring_ok_def newRingBuffer_def list_all_length)
  have room: "\<not> head newRingBuffer - tail newRingBuffer \<ge> of_nat ringBufferSize"
    by (simp add: newRingBuffer_def ringBufferSize_def)
  have h: "head newRingBuffer = 0" "dropCount newRingBuffer = 0"
    by (simp_all add: newRingBuffer_def)
  show ?thesis
    using ok room push_truncates_chunk [OF ok room, of "replicate 3000 0.5"]
    by (auto simp: h maxSamplesPerChunk_def)
qed

subsection \<open>Thread counts\<close>

text \<open>
  With all thread settings 0, the normalisation sets the global count to
  \<open>max 1 (C / 3)\<close>, the VAD count to 1 and the recognizer's and synthesizer's settings
  to the global count, for every number \<open>C\<close> of CPU cores.
\<close>

lemma normalizeThreadCounts_zero:
  "normalizeThreadCounts C (cfg\<lparr>NumThreads := 0, VADThreads := 0, STTThreads := 0, TTSThreads := 0\<rparr>)
   = cfg\<lparr>NumThreads := max 1 (go_div C 3), VADThreads := 1,
         STTThreads := max 1 (go_div C 3), TTSThreads := max 1 (go_div C 3)\<rparr>"
  by (simp add: normalizeThreadCounts_def Let_def)

text \<open>
  Claim C5, evaluated on a machine with 3 CPU cores and all thread settings 0. The
  global count and the synthesizer's setting \<open>TTSThreads\<close> are 1; the VAD and the
  recognizer are created with 1 thread each; but \<open>NewSynthesizer\<close> does not read
  \<open>TTSThreads\<close> and creates the engine with the constant 2.
\<close>

theorem synthesizer_thread_count_at_3_cores:
  "NumThreads (normalizeThreadCounts 3 (cfg\<lparr>NumThreads := 0, VADThreads := 0, STTThreads := 0, TTSThreads := 0\<rparr>)) = 1
   \<and> TTSThreads (normalizeThreadCounts 3 (cfg\<lparr>NumThreads := 0, VADThreads := 0, STTThreads := 0, TTSThreads := 0\<rparr>)) = 1
   \<and> (\<exists>r. NewRecognizer lower True True
              (main_stt_Config th sd
                 (normalizeThreadCounts 3 (cfg\<lparr>NumThreads := 0, VADThreads := 0, STTThreads := 0, TTSThreads := 0\<rparr>)))
            = Inr r
          \<and> vad_NumThreads (vad r) = 1 \<and> rec_NumThreads (recognizer r) = 1)
   \<and> (\<exists>s. NewSynthesizer True
              (main_tts_Config
                 (normalizeThreadCounts 3 (cfg\<lparr>NumThreads := 0, VADThreads := 0, STTThreads := 0, TTSThreads := 0\<rparr>)))
            = Inr s
          \<and> tts_NumThreads (tts s) = 2)"
  by (simp add: normalizeThreadCounts_def go_div_def NewRecognizer_def NewSynthesizer_def
      main_stt_Config_def main_tts_Config_def Let_def)

subsection \<open>The interrupt flag\<close>

lemma blank_transcripts: "TrimSpace '' '' = []" "TrimSpace [] = []"
  by code_simp+

lemma transcript_without_wake_word:
  "TrimSpace ''what time is it'' = ''what time is it''"
  "ToLower lower ''what time is it'' = ''what time is it''"
  "\<not> Contains ''what time is it'' ''hey''"
proof -
  show "TrimSpace ''what time is it'' = ''what time is it''" by code_simp
  have "isASCII ''what time is it''" by code_simp
  moreover have "map lowerByte ''what time is it'' = ''what time is it''" by code_simp
  ultimately show "ToLower lower ''what time is it'' = ''what time is it''"
    by (simp add: ToLower_def)
  show "\<not> Contains ''what time is it'' ''hey''" by code_simp
qed

text \<open>
  Claim C3, evaluated on two runs of the STT loop that start with the flag clear. In the
  first, a segment arrives while speech is detected and its transcription is only white
  space; a second segment with an empty transcription follows. In the second run a wake
  word is configured and the transcript does not contain it. In both the flag is set on
  receiving the segment and is still set when the loop waits for the next segment:
  nothing was handed to the conversant and the flag was not cleared.
\<close>

theorem interrupt_latched_after_empty_transcript:
  "sttProcessor lower (rcg\<lparr>wakeWord := []\<rparr>)
      [Segment [1] True (Some '' '') False, Segment [1] False (Some []) False]
      \<lparr>interrupt = False, transcriptions = []\<rparr>
     = Continue \<lparr>interrupt = True, transcriptions = []\<rparr>
   \<and> sttProcessor lower (rcg\<lparr>wakeWord := ''hey''\<rparr>)
      [Segment [1] True (Some ''what time is it'') False]
      \<lparr>interrupt = False, transcriptions = []\<rparr>
     = Continue \<lparr>interrupt = True, transcriptions = []\<rparr>"
  by (simp add: sttProcessor_iteration_def TranscribeSegment_def blank_transcripts
      transcript_without_wake_word)

subsection \<open>Runes and their encoding\<close>

text \<open>
  Decoding looks ahead at continuation bytes only, so a byte that is not a
  continuation byte always starts a rune, whatever precedes it.
\<close>

lemma byte_char_of: "n < 256 \<Longrightarrow> byte (char_of n) = n"
  by (simp add: byte_def)

lemma DecodeRune_width:
  "1 \<le> snd (DecodeRune (c # s)) \<and> snd (DecodeRune (c # s)) \<le> 1 + length s"
  by (simp add: Let_def split: list.splits)

lemma DecodeRune_append_start:
  assumes "byte t < 0x80 \<or> 0xC0 \<le> byte t"
  shows "DecodeRune (c # s @ t # b) = DecodeRune (c # s)"
proof -
  have nt: "\<not> inRange lo hi t" if "0x80 \<le> lo" "hi \<le> 0xBF" for lo hi
    using assms that by (auto simp add: inRange_def)
  have nt': "\<not> inRange (if P then 0xA0 else 0x80) (if Q then 0x9F else 0xBF) t"
    "\<not> inRange (if P then 0x90 else 0x80) (if Q then 0x8F else 0xBF) t" for P Q
    by (rule nt; simp)+
  show ?thesis
    by (cases s; cases "tl s"; cases "tl (tl s)")
      (auto simp add: Let_def nt nt' split: list.splits)
qed

lemma units_append_start:
  assumes "byte t < 0x80 \<or> 0xC0 \<le> byte t"
  shows "units (a @ t # b) = units a @ units (t # b)"
proof (induction a rule: units.induct)
  case 1
  show ?case by simp
next
  case (2 c s)
  obtain r w where d: "DecodeRune (c # s) = (r, w)" by (cases "DecodeRune (c # s)")
  have w: "1 \<le> w" "w \<le> 1 + length s" using DecodeRune_width[of c s] d by simp_all
  have d': "DecodeRune (c # s @ t # b) = (r, w)" using DecodeRune_append_start[OF assms] d by simp
  have ih: "units (drop (w - 1) s @ t # b) = units (drop (w - 1) s) @ units (t # b)"
    using 2[OF d[symmetric]] by simp
  have "units ((c # s) @ t # b) = (r, c # take (w - 1) s) # units (drop (w - 1) s @ t # b)"
    using w d' by (simp del: DecodeRune.simps)
  then show ?case using ih d by (simp del: DecodeRune.simps units.simps(2) add: units.simps(2)[of c s])
qed

lemma units_append:
  assumes "byte t < 0x80"
  shows "units (a @ t # b) = units a @ (byte t, [t]) # units b"
  using units_append_start[of t a b] assms by (simp add: Let_def)

lemma units_snoc:
  "byte t < 0x80 \<Longrightarrow> units (a @ [t]) = units a @ [(byte t, [t])]"
  using units_append[of t a "[]"] by simp

lemma runes_append:
  "byte t < 0x80 \<Longrightarrow> runes (a @ t # b) = runes a @ byte t # runes b"
  by (simp add: runes_def units_append)

lemma concat_units: "concat (map snd (units s)) = s"
  by (induction s rule: units.induct) (auto split: prod.splits)

lemma units_ascii: "isASCII s \<Longrightarrow> units s = map (\<lambda>c. (byte c, [c])) s"
  by (induction s) (simp_all add: isASCII_def Let_def)

text \<open>
  A rune that \<open>utf8.ValidRune\<close> accepts is decoded from its encoding, and every
  decoded rune is one that \<open>utf8.ValidRune\<close> accepts.
\<close>

lemma div_mod_64:
  fixes r :: nat
  obtains q c where "r = q * 64 + c" "c < 64" "r div 64 = q" "r mod 64 = c"
  by (metis div_mult_mod_eq mod_less_divisor zero_less_numeral)

lemma mask_lead:
  fixes a :: nat
  shows "a < 32 \<Longrightarrow> (192 + a) mod 32 = a"
    and "a < 16 \<Longrightarrow> (224 + a) mod 16 = a"
    and "a < 8 \<Longrightarrow> (240 + a) mod 8 = a"
    and "a < 64 \<Longrightarrow> (128 + a) mod 64 = a"
  using mod_mult_self1[of a 6 32] mod_mult_self1[of a 14 16] mod_mult_self1[of a 30 8]
    mod_mult_self1[of a 2 64]
  by (simp_all add: add.commute)

lemma DecodeRune_two:
  assumes "2 \<le> q" "q < 32" "c < 64"
  shows "DecodeRune (char_of (192 + q) # char_of (128 + c) # rest) = (q * 64 + c, 2)"
proof -
  have bs: "byte (char_of (192 + q)) = 192 + q" "byte (char_of (128 + c)) = 128 + c"
    using assms by (simp_all add: byte_char_of)
  show ?thesis
    using assms by (simp add: Let_def bs inRange_def mask_lead)
qed

lemma DecodeRune_three:
  assumes "p < 16" "b < 64" "c < 64" "p = 0 \<Longrightarrow> 32 \<le> b" "p = 13 \<Longrightarrow> b < 32"
  shows "DecodeRune (char_of (224 + p) # char_of (128 + b) # char_of (128 + c) # rest)
         = ((p * 64 + b) * 64 + c, 3)"
proof -
  have bs: "byte (char_of (224 + p)) = 224 + p" "byte (char_of (128 + b)) = 128 + b"
      "byte (char_of (128 + c)) = 128 + c"
    using assms by (simp_all add: byte_char_of)
  have m: "(224 + p) mod 16 = p" "(128 + b) mod 64 = b" "(128 + c) mod 64 = c"
    using assms by (simp_all add: mask_lead)
  have r1: "(if 224 + p = 0xE0 then 0xA0 else 0x80) \<le> 128 + b"
    using assms(4) by simp
  have r2: "128 + b \<le> (if 224 + p = 0xED then 0x9F else 0xBF)"
    using assms(2,5) by auto
  have r3: "0x80 \<le> 128 + c \<and> 128 + c \<le> 0xBF" using assms(3) by simp
  have g: "\<not> 224 + p < 0x80" "\<not> (224 + p < 0xC2 \<or> 0xF4 < 224 + p)" "\<not> 224 + p < 0xE0" "224 + p < 0xF0"
    using assms(1) by simp_all
  show ?thesis
    unfolding DecodeRune.simps Let_def bs inRange_def list.case m
    by (simp only: g r1 r2 r3 if_True if_False simp_thms)
qed

lemma DecodeRune_four:
  assumes "k \<le> 4" "a < 64" "b < 64" "c < 64" "k = 0 \<Longrightarrow> 16 \<le> a" "k = 4 \<Longrightarrow> a < 16"
  shows "DecodeRune (char_of (240 + k) # char_of (128 + a) # char_of (128 + b) # char_of (128 + c) # rest)
         = (((k * 64 + a) * 64 + b) * 64 + c, 4)"
proof -
  have bs: "byte (char_of (240 + k)) = 240 + k" "byte (char_of (128 + a)) = 128 + a"
      "byte (char_of (128 + b)) = 128 + b" "byte (char_of (128 + c)) = 128 + c"
    using assms by (simp_all add: byte_char_of)
  have m: "(240 + k) mod 8 = k" "(128 + a) mod 64 = a" "(128 + b) mod 64 = b" "(128 + c) mod 64 = c"
    using assms by (simp_all add: mask_lead)
  have r1: "(if 240 + k = 0xF0 then 0x90 else 0x80) \<le> 128 + a"
    using assms(5) by simp
  have r2: "128 + a \<le> (if 240 + k = 0xF4 then 0x8F else 0xBF)"
    using assms(2,6) by auto
  have r3: "0x80 \<le> 128 + b \<and> 128 + b \<le> 0xBF" "0x80 \<le> 128 + c \<and> 128 + c \<le> 0xBF"
    using assms(3,4) by simp_all
  have g: "\<not> 240 + k < 0x80" "\<not> (240 + k < 0xC2 \<or> 0xF4 < 240 + k)" "\<not> 240 + k < 0xE0" "\<not> 240 + k < 0xF0"
    using assms(1) by simp_all
  show ?thesis
    unfolding DecodeRune.simps Let_def bs inRange_def list.case m
    by (simp only: g r1 r2 r3 if_True if_False simp_thms)
qed

lemma EncodeRune_DecodeRune:
  assumes v: "ValidRune r"
  shows "DecodeRune (EncodeRune r @ rest) = (r, length (EncodeRune r))"
proof -
  obtain q c where c: "r = q * 64 + c" "c < 64" "r div 64 = q" "r mod 64 = c"
    by (rule div_mod_64)
  obtain p b where b: "q = p * 64 + b" "b < 64" "q div 64 = p" "q mod 64 = b"
    by (rule div_mod_64)
  obtain k a where a: "p = k * 64 + a" "a < 64" "p div 64 = k" "p mod 64 = a"
    by (rule div_mod_64)
  have d1: "r div 4096 = p" using c(3) b(3) by (simp add: div_mult2_eq[of r 64 64, simplified])
  have d2: "r div 262144 = k"
    using d1 a(3) by (simp add: div_mult2_eq[of r 4096 64, simplified])
  have m1: "(r div 4096) mod 64 = a" using d1 a(4) by simp
  consider (one) "r \<le> 0x7F" | (two) "0x7F < r" "r \<le> 0x7FF"
    | (three) "0x7FF < r" "r \<le> 0xFFFF" | (four) "0xFFFF < r" by linarith
  then show ?thesis
  proof cases
    case one
    then show ?thesis by (simp add: EncodeRune_def byte_char_of)
  next
    case two
    then have q: "2 \<le> q" "q < 32" using c(1,2) by linarith+
    have e: "EncodeRune r = [char_of (192 + q), char_of (128 + c)]"
      using two by (simp add: EncodeRune_def c(3,4))
    show ?thesis unfolding e using DecodeRune_two[OF q c(2), of rest] c(1) by simp
  next
    case three
    have p: "p < 16" using three c(1,2) b(1,2) by linarith
    have lo: "p = 0 \<Longrightarrow> 32 \<le> b" using three c(1,2) b(1,2) by linarith
    have hi: "p = 13 \<Longrightarrow> b < 32" using three v c(1,2) b(1,2) by (simp add: ValidRune_def)
    have ri: "(if r > 0x10FFFF \<or> (0xD800 \<le> r \<and> r \<le> 0xDFFF) then RuneError else r) = r"
      using v three by (auto simp add: ValidRune_def)
    have e: "EncodeRune r = [char_of (224 + p), char_of (128 + b), char_of (128 + c)]"
      unfolding EncodeRune_def Let_def ri using three by (simp add: c(3,4) b(4) d1)
    show ?thesis unfolding e using DecodeRune_three[OF p b(2) c(2) lo hi, of rest] c(1) b(1) by simp
  next
    case four
    have r: "r \<le> 0x10FFFF" using v four by (simp add: ValidRune_def)
    have k: "k \<le> 4" using r c(1,2) b(1,2) a(1,2) by linarith
    have lo: "k = 0 \<Longrightarrow> 16 \<le> a" using four c(1,2) b(1,2) a(1,2) by linarith
    have hi: "k = 4 \<Longrightarrow> a < 16" using r c(1,2) b(1,2) a(1,2) by linarith
    have ri: "(if r > 0x10FFFF \<or> (0xD800 \<le> r \<and> r \<le> 0xDFFF) then RuneError else r) = r"
      using r four by auto
    have e: "EncodeRune r = [char_of (240 + k), char_of (128 + a), char_of (128 + b), char_of (128 + c)]"
      unfolding EncodeRune_def Let_def ri using four by (simp add: c(3,4) b(4) a(4) d1 d2)
    show ?thesis unfolding e using DecodeRune_four[OF k a(2) b(2) c(2) lo hi, of rest] c(1) b(1) a(1) by simp
  qed
qed

lemma mask_sub:
  fixes x :: nat
  shows "192 \<le> x \<Longrightarrow> x < 224 \<Longrightarrow> x mod 32 = x - 192"
    and "224 \<le> x \<Longrightarrow> x < 240 \<Longrightarrow> x mod 16 = x - 224"
    and "240 \<le> x \<Longrightarrow> x < 248 \<Longrightarrow> x mod 8 = x - 240"
    and "128 \<le> x \<Longrightarrow> x < 192 \<Longrightarrow> x mod 64 = x - 128"
  using mask_lead(1)[of "x - 192"] mask_lead(2)[of "x - 224"] mask_lead(3)[of "x - 240"]
    mask_lead(4)[of "x - 128"]
  by simp_all

lemma ValidRune_two: "ValidRune ((x mod 32) * 64 + y mod 64)"
proof -
  have "x mod 32 < 32" "y mod 64 < 64" by simp_all
  then have "(x mod 32) * 64 + y mod 64 < 0xD800" by linarith
  then show ?thesis by (simp add: ValidRune_def)
qed

lemma ValidRune_three:
  assumes "\<not> byte c0 < 0xE0" "byte c0 < 0xF0"
    and "inRange (if byte c0 = 0xE0 then 0xA0 else 0x80) (if byte c0 = 0xED then 0x9F else 0xBF) c1"
  shows "ValidRune (((byte c0 mod 16) * 64 + byte c1 mod 64) * 64 + byte c2 mod 64)"
proof -
  define p where "p = byte c0 - 224"
  define b where "b = byte c1 - 128"
  define c where "c = byte c2 mod 64"
  have r1: "128 \<le> byte c1" "byte c1 < 192"
    using assms(3) by (auto simp: inRange_def split: if_splits)
  have m: "byte c0 mod 16 = p" "byte c1 mod 64 = b"
    using assms(1,2) r1 by (simp_all add: mask_sub p_def b_def)
  have p: "p < 16" "b < 64" "c < 64" using assms(2) r1 by (simp_all add: p_def b_def c_def)
  have hi: "p = 13 \<Longrightarrow> b < 32"
    using assms(1,3) by (auto simp: inRange_def p_def b_def split: if_splits)
  have x: "(p * 64 + b) * 64 + c = p * 4096 + b * 64 + c" by simp
  have "p * 4096 + b * 64 + c < 0xD800 \<or> 0xDFFF < p * 4096 + b * 64 + c \<and> p * 4096 + b * 64 + c \<le> 0x10FFFF"
  proof (cases "p < 13")
    case True
    then show ?thesis using p by linarith
  next
    case False
    show ?thesis
    proof (cases "p = 13")
      case True
      then show ?thesis using hi p by linarith
    next
      case False
      with \<open>\<not> p < 13\<close> have "14 \<le> p" by linarith
      then show ?thesis using p by linarith
    qed
  qed
  then show ?thesis unfolding m c_def[symmetric] ValidRune_def x .
qed

lemma ValidRune_four:
  assumes "\<not> byte c0 < 0xF0" "\<not> 0xF4 < byte c0"
    and "inRange (if byte c0 = 0xF0 then 0x90 else 0x80) (if byte c0 = 0xF4 then 0x8F else 0xBF) c1"
  shows "ValidRune ((((byte c0 mod 8) * 64 + byte c1 mod 64) * 64 + byte c2 mod 64) * 64 + byte c3 mod 64)"
proof -
  define k where "k = byte c0 - 240"
  define a where "a = byte c1 - 128"
  define b where "b = byte c2 mod 64"
  define c where "c = byte c3 mod 64"
  have r1: "128 \<le> byte c1" "byte c1 < 192"
    using assms(3) by (auto simp: inRange_def split: if_splits)
  have m: "byte c0 mod 8 = k" "byte c1 mod 64 = a"
    using assms(1,2) r1 by (simp_all add: mask_sub k_def a_def)
  have p: "k \<le> 4" "a < 64" "b < 64" "c < 64" using assms(2) r1 by (simp_all add: k_def a_def b_def c_def)
  have lo: "k = 0 \<Longrightarrow> 16 \<le> a"
    using assms(1,3) by (auto simp: inRange_def k_def a_def split: if_splits)
  have hi: "k = 4 \<Longrightarrow> a < 16"
    using assms(1,3) by (auto simp: inRange_def k_def a_def split: if_splits)
  have x: "((k * 64 + a) * 64 + b) * 64 + c = k * 262144 + a * 4096 + b * 64 + c" by simp
  have "0xDFFF < k * 262144 + a * 4096 + b * 64 + c \<and> k * 262144 + a * 4096 + b * 64 + c \<le> 0x10FFFF"
  proof (cases "k = 0")
    case True
    then show ?thesis using lo p by linarith
  next
    case False
    show ?thesis
    proof (cases "k = 4")
      case True
      then show ?thesis using hi p by linarith
    next
      case False
      with \<open>k \<noteq> 0\<close> p(1) have "1 \<le> k" "k \<le> 3" by linarith+
      then show ?thesis using p by linarith
    qed
  qed
  then show ?thesis unfolding m b_def[symmetric] c_def[symmetric] ValidRune_def x by simp
qed

lemma ValidRune_case_two:
  assumes "\<And>c1. P c1 \<Longrightarrow> ValidRune (f c1)"
  shows "ValidRune (fst (case s of c1 # _ \<Rightarrow> if P c1 then (f c1, n) else (RuneError, m)
                          | _ \<Rightarrow> (RuneError, k)))"
  using assms by (auto simp: ValidRune_def[of 65533] RuneError_def split: list.splits)

lemma ValidRune_case_three:
  assumes "\<And>c1 c2. P c1 c2 \<Longrightarrow> ValidRune (f c1 c2)"
  shows "ValidRune (fst (case s of c1 # c2 # _ \<Rightarrow> if P c1 c2 then (f c1 c2, n) else (RuneError, m)
                          | _ \<Rightarrow> (RuneError, k)))"
  using assms by (auto simp: ValidRune_def[of 65533] RuneError_def split: list.splits)

lemma ValidRune_case_four:
  assumes "\<And>c1 c2 c3. P c1 c2 c3 \<Longrightarrow> ValidRune (f c1 c2 c3)"
  shows "ValidRune (fst (case s of c1 # c2 # c3 # _ \<Rightarrow>
                              if P c1 c2 c3 then (f c1 c2 c3, n) else (RuneError, m)
                          | _ \<Rightarrow> (RuneError, k)))"
  using assms by (auto simp: ValidRune_def[of 65533] RuneError_def split: list.splits)

lemma DecodeRune_valid: "ValidRune (fst (DecodeRune s))"
proof (cases s)
  case Nil
  then show ?thesis by (simp add: ValidRune_def RuneError_def)
next
  case (Cons c0 s')
  have e: "ValidRune RuneError" by (simp add: ValidRune_def RuneError_def)
  consider (one) "byte c0 < 0x80" | (bad) "\<not> byte c0 < 0x80" "byte c0 < 0xC2 \<or> 0xF4 < byte c0"
    | (two) "\<not> byte c0 < 0x80" "\<not> (byte c0 < 0xC2 \<or> 0xF4 < byte c0)" "byte c0 < 0xE0"
    | (three) "\<not> byte c0 < 0x80" "\<not> (byte c0 < 0xC2 \<or> 0xF4 < byte c0)" "\<not> byte c0 < 0xE0"
        "byte c0 < 0xF0"
    | (four) "\<not> byte c0 < 0x80" "\<not> (byte c0 < 0xC2 \<or> 0xF4 < byte c0)" "\<not> byte c0 < 0xE0"
        "\<not> byte c0 < 0xF0"
    by blast
  then show ?thesis
  proof cases
    case one
    then show ?thesis unfolding Cons by (simp add: ValidRune_def)
  next
    case bad
    then show ?thesis unfolding Cons DecodeRune.simps Let_def
      by (simp only: if_True if_False fst_conv e)
  next
    case two
    show ?thesis unfolding Cons DecodeRune.simps Let_def
      by (simp only: two if_True if_False) (rule ValidRune_case_two, rule ValidRune_two)
  next
    case three
    show ?thesis unfolding Cons DecodeRune.simps Let_def
      by (simp only: three if_True if_False)
        (rule ValidRune_case_three, erule conjE, rule ValidRune_three[OF three(3,4)], assumption)
  next
    case four
    then have f: "\<not> 0xF4 < byte c0" by simp
    show ?thesis unfolding Cons DecodeRune.simps Let_def
      by (simp only: four if_True if_False)
        (rule ValidRune_case_four, erule conjE, rule ValidRune_four[OF four(4) f], assumption)
  qed
qed

lemma EncodeRune_nonempty: "EncodeRune r \<noteq> []"
  by (simp add: EncodeRune_def Let_def)

lemma units_EncodeRune:
  assumes "ValidRune r"
  shows "units (EncodeRune r @ rest) = (r, EncodeRune r) # units rest"
proof -
  obtain c s where e: "EncodeRune r = c # s"
    using EncodeRune_nonempty[of r] by (cases "EncodeRune r") auto
  have d: "DecodeRune (c # s @ rest) = (r, Suc (length s))"
    using EncodeRune_DecodeRune[OF assms, of rest] e by simp
  show ?thesis unfolding e using d by simp
qed

lemma units_WriteRunes:
  "list_all ValidRune rs \<Longrightarrow> units (WriteRunes rs @ rest) = map (\<lambda>r. (r, EncodeRune r)) rs @ units rest"
  by (induction rs) (simp_all add: WriteRunes_def units_EncodeRune)

lemma ValidRune_runes: "list_all ValidRune (runes s)"
proof (induction s rule: units.induct)
  case 1
  show ?case by (simp add: runes_def)
next
  case (2 c s)
  obtain r w where d: "DecodeRune (c # s) = (r, w)" by (cases "DecodeRune (c # s)")
  have "ValidRune r" using DecodeRune_valid[of "c # s"] d by simp
  then show ?case using 2[OF d[symmetric]] d by (simp add: runes_def)
qed

lemma WriteRunes_eq_Nil: "WriteRunes rs = [] \<longleftrightarrow> rs = []"
  by (cases rs) (simp_all add: WriteRunes_def EncodeRune_nonempty)

lemma EncodeRune_byte: "EncodeRune (byte t) = (if byte t < 0x80 then [t] else EncodeRune (byte t))"
  by (simp add: EncodeRune_def byte_def)

text \<open>
  Conversely a rune is encoded to the bytes it was decoded from, so that writing the
  runes of a valid UTF-8 string gives the string back.
\<close>

lemma char_of_byte: "char_of (byte c) = c"
  by (simp add: byte_def)

lemma div_mod_step:
  fixes x y :: nat
  assumes "x < 64"
  shows "(y * 64 + x) div 64 = y" "(y * 64 + x) mod 64 = x"
  using assms by simp_all

lemma EncodeRune_two:
  assumes "\<not> byte c0 < 0xC2" "byte c0 < 0xE0" "inRange 0x80 0xBF c1"
  shows "EncodeRune ((byte c0 mod 32) * 64 + byte c1 mod 64) = [c0, c1]"
proof -
  define p where "p = byte c0 - 192"
  define q where "q = byte c1 - 128"
  have b: "byte c0 = 192 + p" "byte c1 = 128 + q" "2 \<le> p" "p < 32" "q < 64"
    using assms by (auto simp: p_def q_def inRange_def)
  have m: "byte c0 mod 32 = p" "byte c1 mod 64 = q"
    using b by (simp_all add: mask_lead)
  have r: "\<not> p * 64 + q \<le> 0x7F" "p * 64 + q \<le> 0x7FF" using b by linarith+
  have d: "(p * 64 + q) div 64 = p" "(p * 64 + q) mod 64 = q" by (rule div_mod_step[OF b(5)])+
  have "EncodeRune (p * 64 + q) = [char_of (192 + p), char_of (128 + q)]"
    unfolding EncodeRune_def using r by (simp only: if_True if_False d)
  then show ?thesis unfolding m using b(1,2) char_of_byte[of c0] char_of_byte[of c1] by simp
qed

lemma EncodeRune_three:
  assumes "\<not> byte c0 < 0xE0" "byte c0 < 0xF0"
    and "inRange (if byte c0 = 0xE0 then 0xA0 else 0x80) (if byte c0 = 0xED then 0x9F else 0xBF) c1"
    and "inRange 0x80 0xBF c2"
  shows "EncodeRune (((byte c0 mod 16) * 64 + byte c1 mod 64) * 64 + byte c2 mod 64) = [c0, c1, c2]"
proof -
  define p where "p = byte c0 - 224"
  define q where "q = byte c1 - 128"
  define s where "s = byte c2 - 128"
  have r1: "128 \<le> byte c1" "byte c1 < 192"
    using assms(3) by (auto simp: inRange_def split: if_splits)
  have b: "byte c0 = 224 + p" "byte c1 = 128 + q" "byte c2 = 128 + s" "p < 16" "q < 64" "s < 64"
    using assms(1,2,4) r1 by (auto simp: p_def q_def s_def inRange_def)
  have lo: "p = 0 \<Longrightarrow> 32 \<le> q" and hi: "p = 13 \<Longrightarrow> q < 32"
    using assms(3) b(1,2) by (auto simp: inRange_def split: if_splits)
  have m: "byte c0 mod 16 = p" "byte c1 mod 64 = q" "byte c2 mod 64 = s"
    using b by (simp_all add: mask_lead)
  define r where "r = (p * 64 + q) * 64 + s"
  have x: "r = p * 4096 + q * 64 + s" by (simp add: r_def)
  have lo': "0x800 \<le> r"
  proof (cases "p = 0")
    case True then show ?thesis using lo x by linarith
  next
    case False then show ?thesis using x by linarith
  qed
  have up: "r \<le> 0xFFFF" using b(4,5,6) x by linarith
  have ns: "\<not> (0xD800 \<le> r \<and> r \<le> 0xDFFF)"
    using ValidRune_three[OF assms(1,2,3), of c2] up
    unfolding m r_def[symmetric] by (auto simp: ValidRune_def)
  have g: "\<not> r \<le> 0x7F" "\<not> r \<le> 0x7FF"
    "(if r > 0x10FFFF \<or> (0xD800 \<le> r \<and> r \<le> 0xDFFF) then RuneError else r) = r"
    using lo' up ns by auto
  have d: "r div 4096 = p" "(r div 64) mod 64 = q" "r mod 64 = s"
  proof -
    have a: "r div 64 = p * 64 + q" unfolding r_def by (rule div_mod_step(1)[OF b(6)])
    show "(r div 64) mod 64 = q" unfolding a by (rule div_mod_step(2)[OF b(5)])
    show "r mod 64 = s" unfolding r_def by (rule div_mod_step(2)[OF b(6)])
    have "r div 4096 = (r div 64) div 64" by (simp add: div_mult2_eq[of r 64 64, simplified])
    then show "r div 4096 = p" unfolding a by (simp only: div_mod_step(1)[OF b(5)])
  qed
  have "EncodeRune r = [char_of (224 + p), char_of (128 + q), char_of (128 + s)]"
    unfolding EncodeRune_def Let_def g(3) using g(1,2) up by (simp only: if_True if_False d)
  then show ?thesis unfolding m r_def[symmetric]
    using b(1,2,3) char_of_byte[of c0] char_of_byte[of c1] char_of_byte[of c2] by simp
qed

lemma EncodeRune_four:
  assumes "\<not> byte c0 < 0xF0" "\<not> 0xF4 < byte c0"
    and "inRange (if byte c0 = 0xF0 then 0x90 else 0x80) (if byte c0 = 0xF4 then 0x8F else 0xBF) c1"
    and "inRange 0x80 0xBF c2" "inRange 0x80 0xBF c3"
  shows "EncodeRune ((((byte c0 mod 8) * 64 + byte c1 mod 64) * 64 + byte c2 mod 64) * 64
                      + byte c3 mod 64) = [c0, c1, c2, c3]"
proof -
  define k where "k = byte c0 - 240"
  define p where "p = byte c1 - 128"
  define q where "q = byte c2 - 128"
  define s where "s = byte c3 - 128"
  have r1: "128 \<le> byte c1" "byte c1 < 192"
    using assms(3) by (auto simp: inRange_def split: if_splits)
  have b: "byte c0 = 240 + k" "byte c1 = 128 + p" "byte c2 = 128 + q" "byte c3 = 128 + s"
    "k \<le> 4" "p < 64" "q < 64" "s < 64"
    using assms(1,2,4,5) r1 by (auto simp: k_def p_def q_def s_def inRange_def)
  have lo: "k = 0 \<Longrightarrow> 16 \<le> p" and hi: "k = 4 \<Longrightarrow> p < 16"
    using assms(3) b(1,2) by (auto simp: inRange_def split: if_splits)
  have m: "byte c0 mod 8 = k" "byte c1 mod 64 = p" "byte c2 mod 64 = q" "byte c3 mod 64 = s"
    using b by (simp_all add: mask_lead)
  define r where "r = ((k * 64 + p) * 64 + q) * 64 + s"
  have x: "r = k * 262144 + p * 4096 + q * 64 + s" by (simp add: r_def)
  have lo': "0xFFFF < r"
  proof (cases "k = 0")
    case True then show ?thesis using lo x by linarith
  next
    case False then show ?thesis using x by linarith
  qed
  have up: "r \<le> 0x10FFFF"
  proof (cases "k = 4")
    case True then show ?thesis using hi x b(7,8) by linarith
  next
    case False then have "k \<le> 3" using b(5) by linarith
    then show ?thesis using x b(6,7,8) by linarith
  qed
  have g: "\<not> r \<le> 0x7F" "\<not> r \<le> 0x7FF" "\<not> r \<le> 0xFFFF"
    "(if r > 0x10FFFF \<or> (0xD800 \<le> r \<and> r \<le> 0xDFFF) then RuneError else r) = r"
    using lo' up by auto
  have d: "r div 262144 = k" "(r div 4096) mod 64 = p" "(r div 64) mod 64 = q" "r mod 64 = s"
  proof -
    have a: "r div 64 = (k * 64 + p) * 64 + q" unfolding r_def by (rule div_mod_step(1)[OF b(8)])
    show "(r div 64) mod 64 = q" unfolding a by (rule div_mod_step(2)[OF b(7)])
    show "r mod 64 = s" unfolding r_def by (rule div_mod_step(2)[OF b(8)])
    have "r div 4096 = (r div 64) div 64" by (simp add: div_mult2_eq[of r 64 64, simplified])
    then have c: "r div 4096 = k * 64 + p" unfolding a by (simp only: div_mod_step(1)[OF b(7)])
    show "(r div 4096) mod 64 = p" unfolding c by (rule div_mod_step(2)[OF b(6)])
    have "r div 262144 = (r div 4096) div 64" by (simp add: div_mult2_eq[of r 4096 64, simplified])
    then show "r div 262144 = k" unfolding c by (simp only: div_mod_step(1)[OF b(6)])
  qed
  have "EncodeRune r = [char_of (240 + k), char_of (128 + p), char_of (128 + q), char_of (128 + s)]"
    unfolding EncodeRune_def Let_def g(4) using g(1,2,3) by (simp only: if_True if_False d)
  then show ?thesis unfolding m r_def[symmetric]
    using b(1,2,3,4) char_of_byte[of c0] char_of_byte[of c1] char_of_byte[of c2] char_of_byte[of c3]
    by simp
qed

lemma decoded_two:
  assumes "(case s of c1 # _ \<Rightarrow> if P c1 then (f c1, n) else (RuneError, m)
            | _ \<Rightarrow> (RuneError, k)) = (r, w)"
  shows "(\<exists>c1 rest. s = c1 # rest \<and> P c1 \<and> r = f c1 \<and> w = n)
         \<or> (r = RuneError \<and> (w = m \<or> w = k))"
  using assms by (auto split: list.splits if_splits)

lemma decoded_three:
  assumes "(case s of c1 # c2 # _ \<Rightarrow> if P c1 c2 then (f c1 c2, n) else (RuneError, m)
            | _ \<Rightarrow> (RuneError, k)) = (r, w)"
  shows "(\<exists>c1 c2 rest. s = c1 # c2 # rest \<and> P c1 c2 \<and> r = f c1 c2 \<and> w = n)
         \<or> (r = RuneError \<and> (w = m \<or> w = k))"
  using assms by (auto split: list.splits if_splits)

lemma decoded_four:
  assumes "(case s of c1 # c2 # c3 # _ \<Rightarrow> if P c1 c2 c3 then (f c1 c2 c3, n) else (RuneError, m)
            | _ \<Rightarrow> (RuneError, k)) = (r, w)"
  shows "(\<exists>c1 c2 c3 rest. s = c1 # c2 # c3 # rest \<and> P c1 c2 c3 \<and> r = f c1 c2 c3 \<and> w = n)
         \<or> (r = RuneError \<and> (w = m \<or> w = k))"
  using assms by (auto split: list.splits if_splits)

lemma DecodeRune_EncodeRune:
  assumes d: "DecodeRune (c0 # s) = (r, w)" and v: "r \<noteq> RuneError \<or> w = 3"
  shows "EncodeRune r = c0 # take (w - 1) s"
proof -
  consider (one) "byte c0 < 0x80" | (bad) "\<not> byte c0 < 0x80" "byte c0 < 0xC2 \<or> 0xF4 < byte c0"
    | (two) "\<not> byte c0 < 0x80" "\<not> (byte c0 < 0xC2 \<or> 0xF4 < byte c0)" "byte c0 < 0xE0"
    | (three) "\<not> byte c0 < 0x80" "\<not> (byte c0 < 0xC2 \<or> 0xF4 < byte c0)" "\<not> byte c0 < 0xE0"
        "byte c0 < 0xF0"
    | (four) "\<not> byte c0 < 0x80" "\<not> (byte c0 < 0xC2 \<or> 0xF4 < byte c0)" "\<not> byte c0 < 0xE0"
        "\<not> byte c0 < 0xF0"
    by blast
  then show ?thesis
  proof cases
    case one
    then have "r = byte c0" "w = 1" using d by (simp_all add: Let_def)
    then show ?thesis using one by (simp add: EncodeRune_def char_of_byte)
  next
    case bad
    have "(RuneError, 1) = (r, w)"
      using d unfolding DecodeRune.simps Let_def by (simp only: bad if_True if_False)
    then show ?thesis using v by simp
  next
    case two
    have "(case s of c1 # _ \<Rightarrow>
             if inRange 0x80 0xBF c1 then ((byte c0 mod 32) * 64 + byte c1 mod 64, 2)
             else (RuneError, 1)
           | _ \<Rightarrow> (RuneError, 1)) = (r, w)"
      using d unfolding DecodeRune.simps Let_def by (simp only: two if_True if_False)
    from decoded_two[OF this] v obtain c1 rest where
      s: "s = c1 # rest" "inRange 0x80 0xBF c1" "r = (byte c0 mod 32) * 64 + byte c1 mod 64" "w = 2"
      by auto
    have lo: "\<not> byte c0 < 0xC2" using two(2) by simp
    show ?thesis unfolding s(3) EncodeRune_two[OF lo two(3) s(2)] using s(1,4) by simp
  next
    case three
    have "(case s of c1 # c2 # _ \<Rightarrow>
             if inRange (if byte c0 = 0xE0 then 0xA0 else 0x80) (if byte c0 = 0xED then 0x9F else 0xBF) c1
                \<and> inRange 0x80 0xBF c2
             then (((byte c0 mod 16) * 64 + byte c1 mod 64) * 64 + byte c2 mod 64, 3)
             else (RuneError, 1)
           | _ \<Rightarrow> (RuneError, 1)) = (r, w)"
      using d unfolding DecodeRune.simps Let_def by (simp only: three if_True if_False)
    from decoded_three[OF this] v obtain c1 c2 rest where
      s: "s = c1 # c2 # rest"
        "inRange (if byte c0 = 0xE0 then 0xA0 else 0x80) (if byte c0 = 0xED then 0x9F else 0xBF) c1"
        "inRange 0x80 0xBF c2"
        "r = ((byte c0 mod 16) * 64 + byte c1 mod 64) * 64 + byte c2 mod 64" "w = 3"
      by auto
    show ?thesis unfolding s(4) EncodeRune_three[OF three(3,4) s(2,3)] using s(1,5) by simp
  next
    case four
    then have f: "\<not> 0xF4 < byte c0" by simp
    have "(case s of c1 # c2 # c3 # _ \<Rightarrow>
             if inRange (if byte c0 = 0xF0 then 0x90 else 0x80) (if byte c0 = 0xF4 then 0x8F else 0xBF) c1
                \<and> inRange 0x80 0xBF c2 \<and> inRange 0x80 0xBF c3
             then ((((byte c0 mod 8) * 64 + byte c1 mod 64) * 64 + byte c2 mod 64) * 64
                     + byte c3 mod 64, 4)
             else (RuneError, 1)
           | _ \<Rightarrow> (RuneError, 1)) = (r, w)"
      using d unfolding DecodeRune.simps Let_def by (simp only: four if_True if_False)
    from decoded_four[OF this] v obtain c1 c2 c3 rest where
      s: "s = c1 # c2 # c3 # rest"
        "inRange (if byte c0 = 0xF0 then 0x90 else 0x80) (if byte c0 = 0xF4 then 0x8F else 0xBF) c1"
        "inRange 0x80 0xBF c2" "inRange 0x80 0xBF c3"
        "r = (((byte c0 mod 8) * 64 + byte c1 mod 64) * 64 + byte c2 mod 64) * 64 + byte c3 mod 64"
        "w = 4"
      by auto
    show ?thesis unfolding s(5) EncodeRune_four[OF four(4) f s(2,3,4)] using s(1,6) by simp
  qed
qed

lemma WriteRunes_runes:
  "ValidString s \<Longrightarrow> WriteRunes (runes s) = s"
proof (induction s rule: units.induct)
  case 1
  show ?case by (simp add: WriteRunes_def runes_def)
next
  case (2 c s)
  obtain r w where d: "DecodeRune (c # s) = (r, w)" by (cases "DecodeRune (c # s)")
  have w: "1 \<le> w" "w \<le> 1 + length s" using DecodeRune_width[of c s] d by simp_all
  have u: "units (c # s) = (r, c # take (w - 1) s) # units (drop (w - 1) s)"
    using d by (simp del: DecodeRune.simps)
  have v: "r \<noteq> RuneError \<or> w = 3" "ValidString (drop (w - 1) s)"
    using "2.prems" w unfolding ValidString_def u by auto
  have e: "EncodeRune r = c # take (w - 1) s" using DecodeRune_EncodeRune[OF d v(1)] .
  have "WriteRunes (runes (c # s)) = EncodeRune r @ WriteRunes (runes (drop (w - 1) s))"
    unfolding runes_def u by (simp add: WriteRunes_def)
  also have "\<dots> = (c # take (w - 1) s) @ drop (w - 1) s"
    using "2.IH"[OF d[symmetric] v(2)] e by simp
  finally show ?case by simp
qed

lemma ValidString_ascii: "isASCII s \<Longrightarrow> ValidString s"
  by (fastforce simp add: ValidString_def units_ascii list_all_iff isASCII_def RuneError_def)

text \<open>
  A run of consecutive runes of a string, taken by itself, decodes to the same runes
  if the rune after it, if any, is not \<open>RuneError\<close>.
\<close>

lemma DecodeRune_start:
  "fst (DecodeRune (c # s)) \<noteq> RuneError \<Longrightarrow> byte c < 0x80 \<or> 0xC0 \<le> byte c"
  by (auto simp: Let_def split: if_splits)

lemma units_start:
  "u \<in> set (units s) \<Longrightarrow> fst u \<noteq> RuneError \<Longrightarrow>
   snd u \<noteq> [] \<and> (byte (hd (snd u)) < 0x80 \<or> 0xC0 \<le> byte (hd (snd u)))"
proof (induction s rule: units.induct)
  case 1
  then show ?case by simp
next
  case (2 c s)
  obtain r w where d: "DecodeRune (c # s) = (r, w)" by (cases "DecodeRune (c # s)")
  from 2(2) d consider "u = (r, c # take (w - 1) s)" | "u \<in> set (units (drop (w - 1) s))"
    by (auto simp del: DecodeRune.simps)
  then show ?case
  proof cases
    case 1
    then show ?thesis using DecodeRune_start[of c s] d 2(3) by simp
  next
    case 2
    then show ?thesis using "2.IH"[OF d[symmetric]] "2.prems"(2) by simp
  qed
qed

lemma units_suffix: "units s = A @ B \<Longrightarrow> units (concat (map snd B)) = B"
proof (induction A arbitrary: s)
  case Nil
  then show ?case using concat_units[of s] by simp
next
  case (Cons u A)
  then obtain c s' where s: "s = c # s'" by (cases s) auto
  obtain r w where d: "DecodeRune (c # s') = (r, w)" by (cases "DecodeRune (c # s')")
  have "units (drop (w - 1) s') = A @ B"
    using Cons.prems unfolding s by (simp add: d del: DecodeRune.simps)
  then show ?case by (rule Cons.IH)
qed

lemma units_prefix:
  assumes u: "units s = A @ B"
    and b: "B = [] \<or> fst (hd B) \<noteq> RuneError"
  shows "units (concat (map snd A)) = A"
proof (cases B)
  case Nil
  then show ?thesis using u concat_units[of s] by simp
next
  case (Cons v B')
  have vin: "v \<in> set (units s)" using u Cons by simp
  have v: "fst v \<noteq> RuneError" using b Cons by simp
  from units_start[OF vin v] obtain t bs where
    t: "snd v = t # bs" "byte t < 0x80 \<or> 0xC0 \<le> byte t"
    by (cases "snd v") auto
  let ?a = "concat (map snd A)"
  have s: "s = ?a @ t # (bs @ concat (map snd B'))"
    using concat_units[of s] u Cons t(1) by simp
  have sb: "units (t # (bs @ concat (map snd B'))) = B"
    using units_suffix[OF u] Cons t(1) by simp
  have "units s = units ?a @ B"
    using units_append_start[OF t(2), of ?a "bs @ concat (map snd B')"] s sb by simp
  then show ?thesis using u by simp
qed

subsection \<open>Trimming\<close>

lemma trimBy_snoc_not: "\<not> P t \<Longrightarrow> trimBy P (a @ [t]) = dropWhile P a @ [t]"
  by (simp add: trimBy_def dropWhile_append3)

lemma trimBy_eq_Nil: "trimBy P a = [] \<longleftrightarrow> list_all P a"
proof
  assume "trimBy P a = []"
  then have all: "\<forall>x\<in>set (dropWhile P a). P x"
    by (simp add: trimBy_def)
  have "dropWhile P a = []"
  proof (rule ccontr)
    assume ne: "dropWhile P a \<noteq> []"
    then have "\<not> P (hd (dropWhile P a))" by (rule hd_dropWhile)
    moreover have "hd (dropWhile P a) \<in> set (dropWhile P a)" using ne by simp
    ultimately show False using all by blast
  qed
  then show "list_all P a" by (simp add: list_all_iff)
next
  assume "list_all P a"
  then have d: "dropWhile P a = []" by (simp add: list_all_iff)
  show "trimBy P a = []" unfolding trimBy_def d by simp
qed

lemma trimBy_snoc:
  assumes "P t" shows "trimBy P (a @ [t]) = trimBy P a"
proof (cases "list_all P a")
  case True
  then have "list_all P (a @ [t])" using assms by simp
  then show ?thesis using True by (simp only: trimBy_eq_Nil[symmetric])
next
  case False
  then obtain x where "x \<in> set a" "\<not> P x" by (auto simp: list_all_iff)
  then have "dropWhile P (a @ [t]) = dropWhile P a @ [t]"
    by (simp add: dropWhile_append1)
  then show ?thesis using assms by (simp add: trimBy_def)
qed

lemma trimBy_map: "trimBy P (map f xs) = map f (trimBy (\<lambda>x. P (f x)) xs)"
  by (simp add: trimBy_def dropWhile_map rev_map comp_def)

lemma trimBy_ends:
  "trimBy P x = [] \<or> (\<not> P (hd (trimBy P x)) \<and> \<not> P (last (trimBy P x)))"
proof (cases "trimBy P x = []")
  case True
  then show ?thesis by simp
next
  case False
  let ?y = "dropWhile P x"
  let ?z = "dropWhile P (rev ?y)"
  have z: "?z \<noteq> []" using False by (simp add: trimBy_def)
  have y: "?y \<noteq> []"
  proof
    assume e: "?y = []"
    have "?z = []" unfolding e by simp
    with z show False by simp
  qed
  have "\<not> P (hd ?z)" using z by (rule hd_dropWhile)
  then have l: "\<not> P (last (trimBy P x))" using z by (simp add: trimBy_def last_rev)
  have "last ?z = last (rev ?y)"
    using z by (metis dropWhile_eq_Nil_conv last_appendR takeWhile_dropWhile_id)
  also have "\<dots> = hd ?y" using y by (simp add: last_rev)
  finally have "hd (trimBy P x) = hd ?y" using z by (simp add: trimBy_def hd_rev)
  moreover have "\<not> P (hd ?y)" using y by (rule hd_dropWhile)
  ultimately show ?thesis using l by simp
qed

lemma trimBy_fixed:
  assumes "xs \<noteq> []" "\<not> P (hd xs)" "\<not> P (last xs)"
  shows "trimBy P xs = xs"
proof -
  have "dropWhile P xs = xs" using assms by (cases xs) auto
  moreover have "dropWhile P (rev xs) = rev xs"
    using assms by (cases "rev xs") (auto simp: hd_rev)
  ultimately show ?thesis by (simp add: trimBy_def)
qed

lemma trimBy_idem: "trimBy P (trimBy P x) = trimBy P x"
proof (cases "trimBy P x = []")
  case True
  show ?thesis unfolding True by (simp add: trimBy_def)
next
  case False
  with trimBy_ends[of P x] show ?thesis by (intro trimBy_fixed) auto
qed

lemma trimBy_decomp:
  "\<exists>A B. xs = A @ trimBy P xs @ B \<and> list_all P A \<and> list_all P B"
proof -
  let ?A = "takeWhile P xs" and ?y = "dropWhile P xs"
  let ?B = "rev (takeWhile P (rev ?y))"
  have "rev ?y = takeWhile P (rev ?y) @ dropWhile P (rev ?y)" by simp
  then have "?y = rev (dropWhile P (rev ?y)) @ ?B"
    by (metis rev_append rev_rev_ident)
  then have "xs = ?A @ trimBy P xs @ ?B"
    by (metis takeWhile_dropWhile_id trimBy_def)
  moreover have "list_all P ?A" "list_all P ?B"
    by (auto simp: list_all_iff dest: set_takeWhileD)
  ultimately show ?thesis by blast
qed

lemma IsSpace_not_RuneError: "IsSpace r \<Longrightarrow> r \<noteq> RuneError"
  by (auto simp: IsSpace_def RuneError_def)

lemma units_TrimSpace: "units (TrimSpace s) = trimBy (\<lambda>u. IsSpace (fst u)) (units s)"
proof -
  let ?P = "\<lambda>u. IsSpace (fst u)"
  obtain A B where d: "units s = A @ trimBy ?P (units s) @ B" "list_all ?P B"
    using trimBy_decomp[of "units s" ?P] by blast
  have m: "units (concat (map snd (trimBy ?P (units s) @ B))) = trimBy ?P (units s) @ B"
    using units_suffix[OF d(1)] .
  have "B = [] \<or> fst (hd B) \<noteq> RuneError"
    using d(2) by (cases B) (auto simp: IsSpace_not_RuneError)
  from units_prefix[OF m this] show ?thesis by (simp add: TrimSpace_def)
qed

lemma TrimSpace_idem: "TrimSpace (TrimSpace s) = TrimSpace s"
  by (simp add: TrimSpace_def[of "TrimSpace s"] units_TrimSpace trimBy_idem)
    (simp add: TrimSpace_def)

lemma TrimSpace_ascii:
  assumes "isASCII s"
  shows "TrimSpace s = trimBy (\<lambda>c. IsSpace (byte c)) s"
  unfolding TrimSpace_def units_ascii[OF assms] trimBy_map
  by (simp add: comp_def)

lemma TrimSpace_WriteRunes:
  assumes "list_all ValidRune rs"
  shows "TrimSpace (WriteRunes rs) = WriteRunes (trimBy IsSpace rs)"
proof -
  have u: "units (WriteRunes rs) = map (\<lambda>r. (r, EncodeRune r)) rs"
    using units_WriteRunes[OF assms, of "[]"] by simp
  show ?thesis
    unfolding TrimSpace_def u trimBy_map by (simp add: WriteRunes_def comp_def)
qed

subsection \<open>The sentence splitter\<close>

lemma loop_no_terminator:
  "\<not> list_ex isTerminator a \<Longrightarrow>
   SplitSentences_loop (a @ rest) sentences current
     = SplitSentences_loop rest sentences (current @ WriteRunes a)"
  by (induction a arbitrary: current) (simp_all add: Let_def WriteRunes_def)

lemma loop_sentences:
  "SplitSentences_loop rs sentences current =
     (sentences @ fst (SplitSentences_loop rs [] current), snd (SplitSentences_loop rs [] current))"
proof (induction rs arbitrary: sentences current)
  case Nil
  then show ?case by simp
next
  case (Cons c cs)
  show ?case
  proof (cases "isTerminator c")
    case False
    then show ?thesis using Cons.IH[of sentences "current @ EncodeRune c"] by (simp add: Let_def)
  next
    case True
    let ?e = "if TrimSpace (current @ EncodeRune c) \<noteq> [] then [TrimSpace (current @ EncodeRune c)] else []"
    have "SplitSentences_loop (c # cs) sentences current = SplitSentences_loop cs (sentences @ ?e) []"
      using True by (simp add: Let_def)
    moreover have "SplitSentences_loop (c # cs) [] current = SplitSentences_loop cs ?e []"
      using True by (simp add: Let_def)
    ultimately show ?thesis
      using Cons.IH[of "sentences @ ?e" "[]"] Cons.IH[of ?e "[]"] by simp
  qed
qed

lemma isTerminator_ascii: "isTerminator (byte t) \<Longrightarrow> byte t < 0x80"
  by (auto simp: isTerminator_def byte_def)

lemma SplitSentences_no_terminator:
  assumes "\<not> list_ex isTerminator (runes a)"
  shows "SplitSentences a = (if TrimSpace (WriteRunes (runes a)) = [] then []
                             else [TrimSpace (WriteRunes (runes a))])"
  using loop_no_terminator[OF assms, of "[]" "[]" "[]"] by (simp add: SplitSentences_def)

lemma SplitSentences_at_terminator:
  assumes "\<not> list_ex isTerminator (runes a)" "isTerminator (byte t)"
  shows "SplitSentences (a @ t # rest) =
           (if TrimSpace (WriteRunes (runes a) @ [t]) = [] then []
            else [TrimSpace (WriteRunes (runes a) @ [t])]) @ SplitSentences rest"
proof -
  let ?cur = "WriteRunes (runes a) @ [t]"
  let ?e = "if TrimSpace ?cur \<noteq> [] then [TrimSpace ?cur] else []"
  have t: "byte t < 0x80" using assms(2) by (rule isTerminator_ascii)
  have et: "EncodeRune (byte t) = [t]" using t EncodeRune_byte[of t] by simp
  have "SplitSentences_loop (runes (a @ t # rest)) [] []
          = SplitSentences_loop (byte t # runes rest) [] (WriteRunes (runes a))"
    using loop_no_terminator[OF assms(1), of "byte t # runes rest" "[]" "[]"]
    by (simp add: runes_append[OF t])
  also have "\<dots> = SplitSentences_loop (runes rest) ?e []"
    using assms(2) by (simp add: Let_def et)
  also have "\<dots> = (?e @ fst (SplitSentences_loop (runes rest) [] []),
                    snd (SplitSentences_loop (runes rest) [] []))"
    by (rule loop_sentences)
  finally show ?thesis
    by (simp add: SplitSentences_def Let_def split: prod.splits)
qed

lemma TrimSpace_runes_eq_Nil:
  "TrimSpace (WriteRunes (runes a)) = [] \<longleftrightarrow> list_all IsSpace (runes a)"
  by (simp add: TrimSpace_WriteRunes[OF ValidRune_runes] WriteRunes_eq_Nil trimBy_eq_Nil)

lemma loop_whitespace:
  "list_all IsSpace rs \<Longrightarrow> list_all ValidRune rs \<Longrightarrow>
   list_all IsSpace cur \<Longrightarrow> list_all ValidRune cur \<Longrightarrow>
   \<exists>cur'. SplitSentences_loop rs [] (WriteRunes cur) = ([], WriteRunes cur')
        \<and> list_all IsSpace cur' \<and> list_all ValidRune cur'"
proof (induction rs arbitrary: cur)
  case Nil
  then show ?case by auto
next
  case (Cons c cs)
  have w: "WriteRunes cur @ EncodeRune c = WriteRunes (cur @ [c])"
    by (simp add: WriteRunes_def)
  have sp: "list_all IsSpace (cur @ [c])" "list_all ValidRune (cur @ [c])"
    using Cons.prems by simp_all
  have e: "TrimSpace (WriteRunes (cur @ [c])) = []"
    using sp by (simp add: TrimSpace_WriteRunes WriteRunes_eq_Nil trimBy_eq_Nil)
  have n: "([]::string) = WriteRunes []" by (simp add: WriteRunes_def)
  show ?case
  proof (cases "isTerminator c")
    case True
    have "SplitSentences_loop (c # cs) [] (WriteRunes cur) = SplitSentences_loop cs [] (WriteRunes [])"
      using True e by (simp add: Let_def w) (simp add: WriteRunes_def)
    then show ?thesis using Cons.IH[of "[]"] Cons.prems by simp
  next
    case False
    have "SplitSentences_loop (c # cs) [] (WriteRunes cur) = SplitSentences_loop cs [] (WriteRunes (cur @ [c]))"
      using False by (simp add: Let_def w)
    then show ?thesis using Cons.IH[of "cur @ [c]"] Cons.prems sp by simp
  qed
qed

lemma SplitSentences_whitespace:
  assumes "list_all IsSpace (runes tx)"
  shows "SplitSentences tx = []"
proof -
  from loop_whitespace[OF assms ValidRune_runes, of "[]"]
  obtain cur where c: "SplitSentences_loop (runes tx) [] [] = ([], WriteRunes cur)"
    "list_all IsSpace cur" "list_all ValidRune cur"
    by (auto simp: WriteRunes_def)
  have "TrimSpace (WriteRunes cur) = []"
    using c(2,3) by (simp add: TrimSpace_WriteRunes WriteRunes_eq_Nil trimBy_eq_Nil)
  then show ?thesis by (simp add: SplitSentences_def c(1))
qed

lemma TrimSpace_keeps_punctuation:
  assumes "t = CHR ''.'' \<or> t = CHR ''!'' \<or> t = CHR ''?''"
  shows "TrimSpace (cur @ [t])
         = concat (map snd (dropWhile (\<lambda>u. IsSpace (fst u)) (units cur))) @ [t]"
proof -
  have t: "byte t < 0x80" "\<not> IsSpace (byte t)"
    using assms by (auto simp: byte_def IsSpace_def)
  show ?thesis
    unfolding TrimSpace_def units_snoc[OF t(1)]
    using t(2) by (simp add: trimBy_snoc_not)
qed

lemma TrimSpace_drops_newline: "TrimSpace (cur @ [CHR 0x0A]) = TrimSpace cur"
proof -
  have t: "byte (CHR 0x0A) < 0x80" "IsSpace (byte (CHR 0x0A))"
    by (simp_all add: byte_def IsSpace_def)
  show ?thesis
    unfolding TrimSpace_def units_snoc[OF t(1)]
    using t(2) by (simp add: trimBy_snoc)
qed

text \<open>
  Claim C8, as the code has it, for every text. \<open>WriteRunes (runes a)\<close> is what the
  builder holds after the runes of \<open>a\<close> were written to it: the bytes of \<open>a\<close>, with
  \<open>RuneError\<close> in place of every byte that is not part of the encoding of a rune; it is
  \<open>a\<close> itself when \<open>a\<close> is valid UTF-8. The splitter cuts the text after each \<open>.\<close>, \<open>!\<close>, \<open>?\<close> and newline; each piece is trimmed
  of surrounding white space and emitted unless nothing remains. A piece that ends in
  \<open>.\<close>, \<open>!\<close> or \<open>?\<close> keeps that terminator as its last character, after the piece
  without its leading white space; a newline terminator is white space and is trimmed
  away. A text with no terminator that does not consist of white space only yields
  exactly one sentence, its trimmed text; a text of white space only yields no sentence.
\<close>

theorem SplitSentences_behaviour:
  "(\<not> list_ex isTerminator (runes a) \<and> isTerminator (byte t) \<longrightarrow>
      SplitSentences (a @ t # rest) =
        (if TrimSpace (WriteRunes (runes a) @ [t]) = [] then []
         else [TrimSpace (WriteRunes (runes a) @ [t])]) @ SplitSentences rest)
   \<and> (t = CHR ''.'' \<or> t = CHR ''!'' \<or> t = CHR ''?'' \<longrightarrow>
        TrimSpace (cur @ [t])
          = concat (map snd (dropWhile (\<lambda>u. IsSpace (fst u)) (units cur))) @ [t]
        \<and> last (TrimSpace (cur @ [t])) = t)
   \<and> TrimSpace (cur @ [CHR 0x0A]) = TrimSpace cur
   \<and> (\<not> list_ex isTerminator (runes tx) \<and> \<not> list_all IsSpace (runes tx) \<longrightarrow>
        SplitSentences tx = [TrimSpace (WriteRunes (runes tx))]
        \<and> TrimSpace (WriteRunes (runes tx)) \<noteq> [])
   \<and> (list_all IsSpace (runes tx) \<longrightarrow> SplitSentences tx = [])
   \<and> (ValidString a \<longrightarrow> WriteRunes (runes a) = a)"
  using SplitSentences_at_terminator[of a t rest] TrimSpace_keeps_punctuation[of t cur]
    TrimSpace_drops_newline[of cur] SplitSentences_no_terminator[of tx]
    SplitSentences_whitespace[of tx] TrimSpace_runes_eq_Nil[of tx] WriteRunes_runes[of a]
  by simp

text \<open>
  Claim C8 as stated fails for the newline: it ends a sentence, and the sentence
  emitted for a line that ends in a newline does not keep it.
\<close>

theorem SplitSentences_counterexample:
  "isTerminator (byte (CHR 0x0A))
   \<and> SplitSentences (''Hi'' @ [CHR 0x0A] @ ''there'') = [''Hi'', ''there'']"
  by code_simp

theorem SplitSentences_behaviour_witness:
  "\<not> list_ex isTerminator (runes ''Wait'') \<and> isTerminator (byte (CHR ''!''))
   \<and> ValidString ''Wait'' \<and> WriteRunes (runes ''Wait'') = ''Wait''
   \<and> SplitSentences (''Wait'' @ CHR ''!'' # [CHR 0xC2, CHR 0xA0] @ ''Go on'') = [''Wait!'', ''Go on'']
   \<and> TrimSpace (''  Wait'' @ [CHR ''!'']) = ''Wait!''
   \<and> \<not> list_ex isTerminator (runes ([CHR 0xC2, CHR 0xA0] @ ''Go on''))
   \<and> \<not> list_all IsSpace (runes ([CHR 0xC2, CHR 0xA0] @ ''Go on''))
   \<and> SplitSentences ([CHR 0xC2, CHR 0xA0] @ ''Go on'') = [''Go on'']
   \<and> list_all IsSpace (runes ([CHR 0xC2, CHR 0xA0, CHR 0x0A, CHR 0x20, CHR 0xE3, CHR 0x80, CHR 0x80]))
   \<and> SplitSentences [CHR 0xC2, CHR 0xA0, CHR 0x0A, CHR 0x20, CHR 0xE3, CHR 0x80, CHR 0x80] = []"
proof -
  let ?nb = "[CHR 0xC2, CHR 0xA0] @ ''Go on''"
  let ?ws = "[CHR 0xC2, CHR 0xA0, CHR 0x0A, CHR 0x20, CHR 0xE3, CHR 0x80, CHR 0x80]"
  have h1: "\<not> list_ex isTerminator (runes ''Wait'')" "isTerminator (byte (CHR ''!''))"
    by code_simp+
  have h2: "\<not> list_ex isTerminator (runes ?nb)" "\<not> list_all IsSpace (runes ?nb)"
    by code_simp+
  have h3: "list_all IsSpace (runes ?ws)" by code_simp
  have h4: "ValidString ''Wait''" by code_simp
  have e1: "TrimSpace (WriteRunes (runes ''Wait'') @ [CHR ''!'']) = ''Wait!''"
    "TrimSpace (WriteRunes (runes ?nb)) = ''Go on''"
    "concat (map snd (dropWhile (\<lambda>u. IsSpace (fst u)) (units ''  Wait''))) = ''Wait''"
    by code_simp+
  note A = SplitSentences_behaviour [of "''Wait''" "CHR ''!''" ?nb "''  Wait''" ?nb]
  note B = SplitSentences_behaviour [of "''Wait''" "CHR ''!''" ?nb "''  Wait''" ?ws]
  have s1: "SplitSentences (''Wait'' @ CHR ''!'' # ?nb) = [''Wait!''] @ SplitSentences ?nb"
    using A[THEN conjunct1] h1 e1(1) by simp
  have s2: "SplitSentences ?nb = [''Go on'']"
    using A[THEN conjunct2, THEN conjunct2, THEN conjunct2, THEN conjunct1] h2 e1(2) by simp
  have s3: "TrimSpace (''  Wait'' @ [CHR ''!'']) = ''Wait!''"
    using A[THEN conjunct2, THEN conjunct1] e1(3) by simp
  have s4: "SplitSentences ?ws = []"
    using B[THEN conjunct2, THEN conjunct2, THEN conjunct2, THEN conjunct2, THEN conjunct1] h3
    by simp
  have s5: "WriteRunes (runes ''Wait'') = ''Wait''"
    using A[THEN conjunct2, THEN conjunct2, THEN conjunct2, THEN conjunct2, THEN conjunct2] h4
    by simp
  show ?thesis using h1 h2 h3 h4 s1 s2 s3 s4 s5 by simp
qed

subsection \<open>The wake word\<close>

lemma Index_from_found:
  "0 \<le> i \<Longrightarrow> Index_from i s sub \<noteq> -1 \<Longrightarrow>
   \<exists>pre post. s = pre @ sub @ post \<and> Index_from i s sub = i + int (length pre)
      \<and> (\<forall>k<length pre. \<not> prefix sub (drop k s))"
proof (induction s arbitrary: i)
  case Nil
  then show ?case by (auto split: if_splits)
next
  case (Cons c cs)
  show ?case
  proof (cases "prefix sub (c # cs)")
    case True
    then obtain post where "c # cs = sub @ post" by (auto simp: prefix_def)
    moreover have "Index_from i (c # cs) sub = i" using True by simp
    ultimately have "c # cs = [] @ sub @ post \<and> Index_from i (c # cs) sub = i + int (length ([]::string))
        \<and> (\<forall>k<length ([]::string). \<not> prefix sub (drop k (c # cs)))"
      by simp
    then show ?thesis by blast
  next
    case False
    then have eq: "Index_from i (c # cs) sub = Index_from (i + 1) cs sub" by simp
    with Cons.prems have "Index_from (i + 1) cs sub \<noteq> -1" "0 \<le> i + 1" by simp_all
    from Cons.IH[OF this(2,1)] obtain pre post where p: "cs = pre @ sub @ post"
      "Index_from (i + 1) cs sub = i + 1 + int (length pre)"
      "\<forall>k<length pre. \<not> prefix sub (drop k cs)" by blast
    have "\<forall>k<length (c # pre). \<not> prefix sub (drop k (c # cs))"
    proof (intro allI impI)
      fix k assume "k < length (c # pre)"
      then show "\<not> prefix sub (drop k (c # cs))"
        using False p(3) by (cases k) auto
    qed
    moreover have "c # cs = (c # pre) @ sub @ post" using p(1) by simp
    moreover have "Index_from i (c # cs) sub = i + int (length (c # pre))" using eq p(2) by simp
    ultimately show ?thesis by blast
  qed
qed

lemma Index_from_none:
  "Index_from i s sub = -1 \<Longrightarrow> 0 \<le> i \<Longrightarrow> \<not> sublist sub s"
proof (induction s arbitrary: i)
  case Nil
  then show ?case by (auto split: if_splits)
next
  case (Cons c cs)
  then show ?case
    by (auto simp: sublist_Cons_right split: if_splits)
qed

lemma Contains_sublist: "Contains s sub \<longleftrightarrow> sublist sub s"
proof
  assume "Contains s sub"
  then have "Index_from 0 s sub \<noteq> -1" by (simp add: Contains_def Index_def)
  from Index_from_found[OF _ this] show "sublist sub s" by (auto simp: sublist_def)
next
  assume s: "sublist sub s"
  show "Contains s sub"
  proof (rule ccontr)
    assume "\<not> Contains s sub"
    then have neg: "Index_from 0 s sub < 0" by (simp add: Contains_def Index_def)
    have "Index_from 0 s sub = -1"
    proof (rule ccontr)
      assume "Index_from 0 s sub \<noteq> -1"
      from Index_from_found[OF _ this] obtain pre :: string where
        "Index_from 0 s sub = 0 + int (length pre)" by auto
      with neg show False by simp
    qed
    from Index_from_none[OF this] s show False by simp
  qed
qed

lemma isASCII_append: "isASCII (a @ b) \<longleftrightarrow> isASCII a \<and> isASCII b"
  by (simp add: isASCII_def)

lemma ToLower_ascii: "isASCII s \<Longrightarrow> ToLower lower s = map lowerByte s"
  by (simp add: ToLower_def)

lemma lowerByte_idem: "lowerByte (lowerByte c) = lowerByte c"
proof (cases "65 \<le> byte c \<and> byte c \<le> 90")
  case False
  then have "lowerByte c = c" by (auto simp: lowerByte_def)
  then show ?thesis by simp
next
  case True
  then have "byte (char_of (byte c + 32)) = byte c + 32"
    by (simp add: byte_char_of)
  then show ?thesis using True by (simp add: lowerByte_def)
qed

lemma lowerByte_ascii: "byte c < 0x80 \<Longrightarrow> byte (lowerByte c) < 0x80"
  by (simp add: lowerByte_def byte_char_of)

lemma isASCII_lower: "isASCII s \<Longrightarrow> isASCII (map lowerByte s)"
  by (simp add: isASCII_def list_all_iff lowerByte_ascii)

lemma ToLower_idem_ascii:
  assumes "isASCII s"
  shows "ToLower lower (ToLower lower s) = ToLower lower s"
  using assms isASCII_lower[OF assms] by (simp add: ToLower_ascii lowerByte_idem)

lemma ToLower_eq_Nil: "ToLower lower s = [] \<longleftrightarrow> s = []"
proof (cases s)
  case Nil
  then show ?thesis by (simp add: ToLower_def isASCII_def)
next
  case (Cons c cs)
  obtain r n where d: "DecodeRune (c # cs) = (r, n)" by (cases "DecodeRune (c # cs)")
  show ?thesis unfolding Cons
    by (simp add: ToLower_def d EncodeRune_nonempty del: DecodeRune.simps)
qed

lemma length_concat_eq:
  "list_all (\<lambda>u. length (f u) = length (g u)) us \<Longrightarrow>
   length (concat (map f us)) = length (concat (map g us))"
  by (induction us) simp_all

lemma length_ToLower:
  assumes "keepsWidth lower s"
  shows "length (ToLower lower s) = length s"
proof (cases "isASCII s")
  case True
  then show ?thesis by (simp add: ToLower_def)
next
  case False
  then have "list_all (\<lambda>u. length (EncodeRune (lower (fst u))) = length (snd u)) (units s)"
    using assms by (simp add: keepsWidth_def)
  from length_concat_eq[OF this] show ?thesis
    using False by (simp add: ToLower_def concat_units)
qed

lemma removeWakeWord_found:
  assumes len: "length (ToLower lower tx) = length tx"
    and idem: "ToLower lower w = w"
    and sub: "sublist w (ToLower lower tx)" and ne: "w \<noteq> []"
  shows "\<exists>pre m post lpre lpost.
             tx = pre @ m @ post \<and> ToLower lower tx = lpre @ w @ lpost
           \<and> length pre = length lpre \<and> length m = length w
           \<and> \<not> sublist w (lpre @ butlast w)
           \<and> removeWakeWord lower tx w = Inr (TrimSpace (TrimLeft (pre @ post) wakeCutset))"
proof -
  let ?L = "ToLower lower tx"
  from sub have "Contains ?L w" by (simp add: Contains_sublist)
  then have "Index_from 0 ?L w \<noteq> -1" by (simp add: Contains_def Index_def)
  from Index_from_found[OF _ this] obtain lpre lpost where
    L: "?L = lpre @ w @ lpost" and idx: "Index ?L w = int (length lpre)"
    and least: "\<forall>k<length lpre. \<not> prefix w (drop k ?L)"
    by (auto simp: Index_def)
  define n where "n = length lpre"
  define k where "k = length w"
  have len': "length tx = n + k + length lpost"
    using arg_cong[OF L, of length] len by (simp add: n_def k_def)
  define pre where "pre = take n tx"
  define m where "m = take k (drop n tx)"
  define post where "post = drop (n + k) tx"
  have split: "tx = pre @ m @ post"
    by (simp add: pre_def m_def post_def add.commute[of n k] flip: drop_drop)
  have lp: "length pre = length lpre" "length m = length w"
    using len' by (simp_all add: pre_def m_def n_def k_def)
  have first: "\<not> sublist w (lpre @ butlast w)"
  proof
    assume "sublist w (lpre @ butlast w)"
    then obtain ps ss where e: "lpre @ butlast w = ps @ w @ ss"
      by (auto simp: sublist_def)
    have "length ps + length w + length ss = length lpre + (length w - 1)"
      using arg_cong[OF e, of length] by simp
    then have j: "length ps < length lpre" using ne by (cases w) auto
    have "?L = (lpre @ butlast w) @ [last w] @ lpost"
      using L ne by simp
    also have "\<dots> = ps @ w @ (ss @ [last w] @ lpost)"
      using e by simp
    finally have "drop (length ps) ?L = w @ (ss @ [last w] @ lpost)"
      by (metis append_eq_conv_conj)
    then have "prefix w (drop (length ps) ?L)" by simp
    with least j show False by blast
  qed
  have r: "removeWakeWord lower tx w = Inr (TrimSpace (TrimLeft (pre @ post) wakeCutset))"
    using idx len'
    by (simp add: removeWakeWord_def idem Let_def n_def[symmetric] k_def[symmetric]
        pre_def post_def nat_add_distrib)
  from split L lp first r show ?thesis by blast
qed

lemma lowered_occurrence_ascii:
  assumes "isASCII (pre @ m @ post)"
    and "ToLower lower (pre @ m @ post) = lpre @ w @ lpost"
    and "length pre = length lpre" "length m = length w"
  shows "ToLower lower m = w"
proof -
  have am: "isASCII m" using assms(1) by (simp add: isASCII_append)
  have "map lowerByte pre @ map lowerByte m @ map lowerByte post = lpre @ w @ lpost"
    using assms(1,2) by (simp add: ToLower_ascii)
  then have "map lowerByte m = w"
    using assms(3,4) by (simp add: append_eq_append_conv)
  then show ?thesis by (simp add: ToLower_ascii[OF am])
qed

lemma example_NewRecognizer:
  "NewRecognizer lowerExample True True exampleConfig = Inr exampleRecognizer"
proof -
  have l: "ToLower lowerExample ''Hey Assistant'' = ''hey assistant''" by code_simp
  have e: "\<not> EqualFold ''en'' ''auto''" by code_simp
  show ?thesis
    by (simp add: NewRecognizer_def exampleConfig_def exampleRecognizer_def exampleVad_def l e Let_def)
qed

text \<open>
  Claim C7, as the code has it. Let the recognizer be created with a non-empty wake
  word, and let the decoder return a transcript that is not empty after trimming. If the
  lower-cased transcript does not contain the lower-cased wake word, the result is
  empty. Otherwise, let lower-casing keep the byte length of every rune of the
  transcript (as in every ASCII transcript), and let the lower-cased wake word be
  unchanged by lower-casing it again (as it is with the tables of \<open>unicode.ToLower\<close>, and
  with any tables for an ASCII wake word). Then the transcript is \<open>pre @ m @ post\<close>
  where \<open>m\<close> stands at the bytes at which the lower-cased transcript has the first
  occurrence of the lower-cased wake word (in an ASCII transcript \<open>m\<close> is the wake word
  up to case); the result is \<open>pre @ post\<close> with the punctuation and white space at its
  start stripped and its ends trimmed, and it is \<open>Hello\<close> when nothing remains.
\<close>

theorem TranscribeSegment_wake_word:
  assumes rcg: "NewRecognizer lower True True cfg = Inr rcg"
    and wake: "stt_WakeWord cfg \<noteq> []"
    and dec: "smpls \<noteq> []" "decode smpls = Some raw" "TrimSpace raw \<noteq> []"
  shows "(\<not> sublist (ToLower lower (stt_WakeWord cfg)) (ToLower lower (TrimSpace raw)) \<longrightarrow>
            TranscribeSegment lower decode rcg smpls = Inr [])
       \<and> (keepsWidth lower (TrimSpace raw)
            \<and> ToLower lower (ToLower lower (stt_WakeWord cfg)) = ToLower lower (stt_WakeWord cfg)
            \<and> sublist (ToLower lower (stt_WakeWord cfg)) (ToLower lower (TrimSpace raw)) \<longrightarrow>
            (\<exists>pre m post lpre lpost.
                TrimSpace raw = pre @ m @ post
              \<and> ToLower lower (TrimSpace raw) = lpre @ ToLower lower (stt_WakeWord cfg) @ lpost
              \<and> length pre = length lpre
              \<and> length m = length (ToLower lower (stt_WakeWord cfg))
              \<and> \<not> sublist (ToLower lower (stt_WakeWord cfg))
                    (lpre @ butlast (ToLower lower (stt_WakeWord cfg)))
              \<and> (isASCII (TrimSpace raw) \<longrightarrow> ToLower lower m = ToLower lower (stt_WakeWord cfg))
              \<and> TranscribeSegment lower decode rcg smpls =
                  Inr (if TrimSpace (TrimLeft (pre @ post) wakeCutset) = [] then ''Hello''
                       else TrimSpace (TrimLeft (pre @ post) wakeCutset))))"
proof -
  let ?W = "ToLower lower (stt_WakeWord cfg)"
  let ?t = "TrimSpace raw"
  from rcg have w: "wakeWord rcg = ?W"
    by (auto simp: NewRecognizer_def Let_def)
  have wne: "?W \<noteq> []" using wake by (simp add: ToLower_eq_Nil)
  have T: "TranscribeSegment lower decode rcg smpls =
      (if \<not> Contains (ToLower lower ?t) ?W then Inr []
       else case removeWakeWord lower ?t ?W of
              Inl p \<Rightarrow> Inl p
            | Inr text1 \<Rightarrow> (if TrimSpace text1 = [] then Inr ''Hello'' else Inr (TrimSpace text1)))"
    using dec wne by (simp add: TranscribeSegment_def w Let_def split: sum.splits)
  have A: "TranscribeSegment lower decode rcg smpls = Inr []"
    if "\<not> sublist ?W (ToLower lower ?t)"
    using that by (simp add: T Contains_sublist)
  have B: "\<exists>pre m post lpre lpost.
                ?t = pre @ m @ post
              \<and> ToLower lower ?t = lpre @ ?W @ lpost
              \<and> length pre = length lpre
              \<and> length m = length ?W
              \<and> \<not> sublist ?W (lpre @ butlast ?W)
              \<and> (isASCII ?t \<longrightarrow> ToLower lower m = ?W)
              \<and> TranscribeSegment lower decode rcg smpls =
                  Inr (if TrimSpace (TrimLeft (pre @ post) wakeCutset) = [] then ''Hello''
                       else TrimSpace (TrimLeft (pre @ post) wakeCutset))"
    if kw: "keepsWidth lower ?t" and idem: "ToLower lower ?W = ?W"
      and s: "sublist ?W (ToLower lower ?t)"
  proof -
    from removeWakeWord_found[OF length_ToLower[OF kw] idem s wne] obtain pre m post lpre lpost where
      p: "?t = pre @ m @ post" "ToLower lower ?t = lpre @ ?W @ lpost"
         "length pre = length lpre" "length m = length ?W"
         "\<not> sublist ?W (lpre @ butlast ?W)"
         "removeWakeWord lower ?t ?W = Inr (TrimSpace (TrimLeft (pre @ post) wakeCutset))"
      by blast
    have "TranscribeSegment lower decode rcg smpls =
                  Inr (if TrimSpace (TrimLeft (pre @ post) wakeCutset) = [] then ''Hello''
                       else TrimSpace (TrimLeft (pre @ post) wakeCutset))"
      using s by (simp add: T Contains_sublist p(6) TrimSpace_idem)
    moreover have "isASCII ?t \<longrightarrow> ToLower lower m = ?W"
      using lowered_occurrence_ascii[of pre m post lower lpre ?W lpost] p(1,2,3,4) by simp
    ultimately show ?thesis using p(1,2,3,4,5) by blast
  qed
  from A B show ?thesis by blast
qed

theorem TranscribeSegment_wake_word_witness:
  "NewRecognizer lowerExample True True exampleConfig = Inr exampleRecognizer
   \<and> stt_WakeWord exampleConfig \<noteq> []
   \<and> [1::real] \<noteq> []
   \<and> decodeTo '' hey assistant, what time is it? '' [1] = Some '' hey assistant, what time is it? ''
   \<and> TrimSpace '' hey assistant, what time is it? '' \<noteq> []
   \<and> keepsWidth lowerExample (TrimSpace '' hey assistant, what time is it? '')
   \<and> ToLower lowerExample (ToLower lowerExample (stt_WakeWord exampleConfig))
        = ToLower lowerExample (stt_WakeWord exampleConfig)
   \<and> sublist (ToLower lowerExample (stt_WakeWord exampleConfig))
        (ToLower lowerExample (TrimSpace '' hey assistant, what time is it? ''))
   \<and> (\<exists>pre m post.
          TrimSpace '' hey assistant, what time is it? '' = pre @ m @ post
        \<and> ToLower lowerExample m = ''hey assistant''
        \<and> TranscribeSegment lowerExample (decodeTo '' hey assistant, what time is it? '')
              exampleRecognizer [1]
            = Inr (if TrimSpace (TrimLeft (pre @ post) wakeCutset) = [] then ''Hello''
                   else TrimSpace (TrimLeft (pre @ post) wakeCutset)))
   \<and> TranscribeSegment lowerExample (decodeTo '' hey assistant, what time is it? '')
          exampleRecognizer [1]
        = Inr ''what time is it?''
   \<and> keepsWidth lowerExample (TrimSpace (''Caf'' @ [CHR 0xC3, CHR 0xA9] @ '', Hey Assistant''))
   \<and> \<not> isASCII (TrimSpace (''Caf'' @ [CHR 0xC3, CHR 0xA9] @ '', Hey Assistant''))
   \<and> TranscribeSegment lowerExample (decodeTo (''Caf'' @ [CHR 0xC3, CHR 0xA9] @ '', Hey Assistant''))
          exampleRecognizer [1]
        = Inr (''Caf'' @ [CHR 0xC3, CHR 0xA9] @ '','')
   \<and> TrimSpace ''what time is it'' \<noteq> []
   \<and> \<not> sublist (ToLower lowerExample (stt_WakeWord exampleConfig))
          (ToLower lowerExample (TrimSpace ''what time is it''))
   \<and> TranscribeSegment lowerExample (decodeTo ''what time is it'') exampleRecognizer [1] = Inr []"
proof -
  let ?raw1 = "'' hey assistant, what time is it? ''"
  let ?raw2 = "''what time is it''"
  let ?raw3 = "''Caf'' @ [CHR 0xC3, CHR 0xA9] @ '', Hey Assistant''"
  let ?W = "ToLower lowerExample (stt_WakeWord exampleConfig)"
  note rcg = example_NewRecognizer
  have W: "?W = ''hey assistant''" by code_simp
  have wk: "stt_WakeWord exampleConfig \<noteq> []" by code_simp
  have s: "[1::real] \<noteq> []" by simp
  have d1: "decodeTo ?raw1 [1] = Some ?raw1" and d2: "decodeTo ?raw2 [1] = Some ?raw2"
    and d3: "decodeTo ?raw3 [1] = Some ?raw3"
    by (simp_all add: decodeTo_def)
  have n1: "TrimSpace ?raw1 \<noteq> []" and n2: "TrimSpace ?raw2 \<noteq> []" and n3: "TrimSpace ?raw3 \<noteq> []"
    by code_simp+
  have k1: "keepsWidth lowerExample (TrimSpace ?raw1)"
    and k3: "keepsWidth lowerExample (TrimSpace ?raw3)" by code_simp+
  have a1: "isASCII (TrimSpace ?raw1)" and a3: "\<not> isASCII (TrimSpace ?raw3)" by code_simp+
  have idem: "ToLower lowerExample ?W = ?W" by code_simp
  have in1: "sublist ?W (ToLower lowerExample (TrimSpace ?raw1))"
    and in3: "sublist ?W (ToLower lowerExample (TrimSpace ?raw3))"
    and out2: "\<not> sublist ?W (ToLower lowerExample (TrimSpace ?raw2))"
    by code_simp+
  have e1: "TranscribeSegment lowerExample (decodeTo ?raw1) exampleRecognizer [1] = Inr ''what time is it?''"
    by code_simp
  have e3: "TranscribeSegment lowerExample (decodeTo ?raw3) exampleRecognizer [1]
              = Inr (''Caf'' @ [CHR 0xC3, CHR 0xA9] @ '','')"
    by code_simp
  note T1 = TranscribeSegment_wake_word [where decode = "decodeTo ?raw1" and raw = "?raw1", OF rcg wk s d1 n1, THEN conjunct2, THEN mp]
  note T2 = TranscribeSegment_wake_word [where decode = "decodeTo ?raw2" and raw = "?raw2", OF rcg wk s d2 n2, THEN conjunct1, THEN mp]
  note T3 = TranscribeSegment_wake_word [where decode = "decodeTo ?raw3" and raw = "?raw3", OF rcg wk s d3 n3, THEN conjunct2, THEN mp]
  from T1[OF conjI[OF k1 conjI[OF idem in1]]] a1 obtain pre m post where
    p: "TrimSpace ?raw1 = pre @ m @ post" "ToLower lowerExample m = ?W"
       "TranscribeSegment lowerExample (decodeTo ?raw1) exampleRecognizer [1] =
                Inr (if TrimSpace (TrimLeft (pre @ post) wakeCutset) = [] then ''Hello''
                     else TrimSpace (TrimLeft (pre @ post) wakeCutset))"
    by blast
  have x1: "\<exists>pre m post.
          TrimSpace ?raw1 = pre @ m @ post
        \<and> ToLower lowerExample m = ''hey assistant''
        \<and> TranscribeSegment lowerExample (decodeTo ?raw1) exampleRecognizer [1]
            = Inr (if TrimSpace (TrimLeft (pre @ post) wakeCutset) = [] then ''Hello''
                   else TrimSpace (TrimLeft (pre @ post) wakeCutset))"
    using p(1) p(2)[unfolded W] p(3) by blast
  from T3[OF conjI[OF k3 conjI[OF idem in3]]] obtain pre m post where
    "TranscribeSegment lowerExample (decodeTo ?raw3) exampleRecognizer [1] =
                Inr (if TrimSpace (TrimLeft (pre @ post) wakeCutset) = [] then ''Hello''
                     else TrimSpace (TrimLeft (pre @ post) wakeCutset))"
    by blast
  have x2: "TranscribeSegment lowerExample (decodeTo ?raw2) exampleRecognizer [1] = Inr []"
    by (rule T2[OF out2])
  show ?thesis
    by (intro conjI rcg wk s d1 n1 k1 idem in1 x1 e1 k3 a3 e3 n2 out2 x2)
qed

text \<open>
  Claim C7 as stated fails for a wake word in the middle of the transcript: the
  punctuation and white space next to the wake word stay, since only the start of
  the remaining text is stripped.
\<close>

theorem TranscribeSegment_wake_word_counterexample:
  "NewRecognizer lowerExample True True exampleConfig = Inr exampleRecognizer
   \<and> TranscribeSegment lowerExample (decodeTo ''Well, hey assistant, stop.'') exampleRecognizer [1]
       = Inr (''Well, '' @ '', stop.'')"
proof -
  have "TranscribeSegment lowerExample (decodeTo ''Well, hey assistant, stop.'') exampleRecognizer [1]
       = Inr (''Well, '' @ '', stop.'')"
    by code_simp
  then show ?thesis using example_NewRecognizer by simp
qed

text \<open>
  Where lower-casing changes the byte length of a rune in front of the wake word, the
  index found in the lower-cased copy does not fit the transcript: the slice expression
  panics for U+023A, and for U+0130 the removed bytes are not the wake word.
\<close>

lemma TranscribeSegment_index_slip:
  "TranscribeSegment lowerExample
      (decodeTo ([CHR 0xC8, CHR 0xBA, CHR 0xC8, CHR 0xBA, CHR 0xC8, CHR 0xBA] @ '' hey assistant''))
      exampleRecognizer [1]
     = Inl PanicSliceBounds
   \<and> TranscribeSegment lowerExample
      (decodeTo ([CHR 0xC4, CHR 0xB0] @ '' hey assistant, stop''))
      exampleRecognizer [1]
     = Inr ([CHR 0xC4, CHR 0xB0] @ ''t, stop'')"
  by code_simp

subsection \<open>The resamplers\<close>

text \<open>
  Rounding with a relative error of at most \<open>u\<close> keeps a non-negative value between
  \<open>(1 - u) * x\<close> and \<open>(1 + u) * x\<close>; the bounds of the ratio and of the output length
  follow by monotonicity.
\<close>

lemma floor_near:
  fixes p x :: real
  assumes "\<bar>p - x\<bar> \<le> 1"
  shows "\<bar>\<lfloor>p\<rfloor> - \<lfloor>x\<rfloor>\<bar> \<le> 1"
proof -
  have b: "p \<le> x + 1" "x - 1 \<le> p" using assms by (simp_all add: abs_le_iff)
  have "\<lfloor>p\<rfloor> \<le> \<lfloor>x + 1\<rfloor>" by (rule floor_mono[OF b(1)])
  moreover have "\<lfloor>x - 1\<rfloor> \<le> \<lfloor>p\<rfloor>" by (rule floor_mono[OF b(2)])
  moreover have "\<lfloor>x + 1\<rfloor> = \<lfloor>x\<rfloor> + 1" "\<lfloor>x - 1\<rfloor> = \<lfloor>x\<rfloor> - 1" by simp_all
  ultimately show ?thesis by linarith
qed

lemma rnd_bounds:
  fixes rnd :: "real \<Rightarrow> real" and u x :: real
  assumes R: "\<And>x. \<bar>rnd x - x\<bar> \<le> \<bar>x\<bar> * u" and x: "0 \<le> x"
  shows "(1 - u) * x \<le> rnd x" and "rnd x \<le> (1 + u) * x"
proof -
  from R[of x] x have "\<bar>rnd x - x\<bar> \<le> x * u" by simp
  then have "rnd x - x \<le> x * u" "x - rnd x \<le> x * u" by (simp_all add: abs_le_iff)
  then show "(1 - u) * x \<le> rnd x" "rnd x \<le> (1 + u) * x" by (simp_all add: algebra_simps)
qed

lemma rnd_nonneg:
  fixes rnd :: "real \<Rightarrow> real" and u x :: real
  assumes R: "\<And>x. \<bar>rnd x - x\<bar> \<le> \<bar>x\<bar> * u" and u: "u < 1" and x: "0 \<le> x"
  shows "0 \<le> rnd x"
proof -
  have "0 \<le> (1 - u) * x" using u x by simp
  with rnd_bounds(1)[OF R x] show ?thesis by simp
qed

lemma rnd_pos:
  fixes rnd :: "real \<Rightarrow> real" and u x :: real
  assumes R: "\<And>x. \<bar>rnd x - x\<bar> \<le> \<bar>x\<bar> * u" and u: "u < 1" and x: "0 < x"
  shows "0 < rnd x"
proof -
  have "0 < (1 - u) * x" using u x by simp
  with rnd_bounds(1)[OF R, of x] x show ?thesis by simp
qed

lemma ratio_bounds:
  fixes rnd :: "real \<Rightarrow> real" and u t f :: real
  assumes R: "\<And>x. \<bar>rnd x - x\<bar> \<le> \<bar>x\<bar> * u" and u: "0 \<le> u" "u < 1"
    and t: "0 < t" and f: "0 < f"
  shows "(1 - u) ^ 2 / (1 + u) * (t / f) \<le> rnd (rnd t / rnd f)"
    and "rnd (rnd t / rnd f) \<le> (1 + u) ^ 2 / (1 - u) * (t / f)"
    and "0 < rnd (rnd t / rnd f)"
proof -
  have T: "(1 - u) * t \<le> rnd t" "rnd t \<le> (1 + u) * t" using rnd_bounds[OF R, of t] t by simp_all
  have F: "(1 - u) * f \<le> rnd f" "rnd f \<le> (1 + u) * f" using rnd_bounds[OF R, of f] f by simp_all
  have Tp: "0 < rnd t" and Fp: "0 < rnd f" using rnd_pos[OF R u(2)] t f by simp_all
  have lf: "0 < (1 - u) * f" using u f by simp
  have lt: "0 \<le> (1 - u) * t" using u t by simp
  have q_hi: "rnd t / rnd f \<le> ((1 + u) * t) / ((1 - u) * f)"
    using T(2) F(1) lf Tp by (intro frac_le) simp_all
  have q_lo: "((1 - u) * t) / ((1 + u) * f) \<le> rnd t / rnd f"
    using T(1) F(2) Fp lt by (intro frac_le) simp_all
  have qp: "0 < rnd t / rnd f" using Tp Fp by simp
  then have q0: "0 \<le> rnd t / rnd f" by simp
  show "0 < rnd (rnd t / rnd f)" by (rule rnd_pos[OF R u(2) qp])
  have "rnd (rnd t / rnd f) \<le> (1 + u) * (rnd t / rnd f)" by (rule rnd_bounds(2)[OF R q0])
  also have "\<dots> \<le> (1 + u) * (((1 + u) * t) / ((1 - u) * f))"
    using q_hi u by (intro mult_left_mono) simp_all
  also have "\<dots> = (1 + u) ^ 2 / (1 - u) * (t / f)"
    by (simp add: power2_eq_square)
  finally show "rnd (rnd t / rnd f) \<le> (1 + u) ^ 2 / (1 - u) * (t / f)" .
  have "(1 - u) ^ 2 / (1 + u) * (t / f) = (1 - u) * (((1 - u) * t) / ((1 + u) * f))"
    by (simp add: power2_eq_square)
  also have "\<dots> \<le> (1 - u) * (rnd t / rnd f)"
    using q_lo u by (intro mult_left_mono) simp_all
  also have "\<dots> \<le> rnd (rnd t / rnd f)" by (rule rnd_bounds(1)[OF R q0])
  finally show "(1 - u) ^ 2 / (1 + u) * (t / f) \<le> rnd (rnd t / rnd f)" .
qed

lemma product_bounds:
  fixes rnd :: "real \<Rightarrow> real" and u n r lo hi y :: real
  assumes R: "\<And>x. \<bar>rnd x - x\<bar> \<le> \<bar>x\<bar> * u" and u: "0 \<le> u" "u < 1"
    and n: "0 \<le> n" and r: "lo * y \<le> r" "r \<le> hi * y" "0 \<le> r" and lo: "0 \<le> lo" and y: "0 \<le> y"
  shows "(1 - u) ^ 2 * lo * (n * y) \<le> rnd (rnd n * r)"
    and "rnd (rnd n * r) \<le> (1 + u) ^ 2 * hi * (n * y)"
    and "0 \<le> rnd (rnd n * r)"
proof -
  have N: "(1 - u) * n \<le> rnd n" "rnd n \<le> (1 + u) * n" using rnd_bounds[OF R n] by simp_all
  have Np: "0 \<le> rnd n" by (rule rnd_nonneg[OF R u(2) n])
  have P0: "0 \<le> rnd n * r" using Np r(3) by simp
  show "0 \<le> rnd (rnd n * r)" by (rule rnd_nonneg[OF R u(2) P0])
  have "rnd (rnd n * r) \<le> (1 + u) * (rnd n * r)" by (rule rnd_bounds(2)[OF R P0])
  also have "\<dots> \<le> (1 + u) * (((1 + u) * n) * (hi * y))"
    using N(2) r(2) Np r(3) u by (intro mult_left_mono mult_mono) simp_all
  also have "\<dots> = (1 + u) ^ 2 * hi * (n * y)" by (simp add: power2_eq_square)
  finally show "rnd (rnd n * r) \<le> (1 + u) ^ 2 * hi * (n * y)" .
  have l0: "0 \<le> (1 - u) * n" "0 \<le> lo * y" using u n lo y by simp_all
  have "(1 - u) ^ 2 * lo * (n * y) = (1 - u) * (((1 - u) * n) * (lo * y))"
    by (simp add: power2_eq_square)
  also have "\<dots> \<le> (1 - u) * (rnd n * r)"
    using N(1) r(1) l0 u by (intro mult_left_mono mult_mono) simp_all
  also have "\<dots> \<le> rnd (rnd n * r)" by (rule rnd_bounds(1)[OF R P0])
  finally show "(1 - u) ^ 2 * lo * (n * y) \<le> rnd (rnd n * r)" .
qed

lemma outputLen_near:
  fixes rnd :: "real \<Rightarrow> real" and t f :: int and n :: nat
  assumes R: "\<And>x. \<bar>rnd x - x\<bar> \<le> \<bar>x\<bar> / 2 ^ 53"
    and t: "0 < t" and f: "0 < f"
    and size: "real n * real_of_int t / real_of_int f \<le> 2 ^ 50"
  shows "0 < rnd (rnd (of_int t) / rnd (of_int f))"
    and "0 \<le> rnd (rnd (real n) * rnd (rnd (of_int t) / rnd (of_int f)))"
    and "\<bar>\<lfloor>rnd (rnd (real n) * rnd (rnd (of_int t) / rnd (of_int f)))\<rfloor>
          - \<lfloor>real n * real_of_int t / real_of_int f\<rfloor>\<bar> \<le> 1"
    and "rnd (rnd (of_int t) / rnd (of_int f)) = 1 \<Longrightarrow>
         \<bar>int n - \<lfloor>real n * real_of_int t / real_of_int f\<rfloor>\<bar> \<le> 1"
proof -
  define u :: real where "u = 1 / 2 ^ 53"
  define y :: real where "y = real_of_int t / real_of_int f"
  define x :: real where "x = real n * y"
  define ratio where "ratio = rnd (rnd (of_int t) / rnd (of_int f))"
  define p where "p = rnd (rnd (real n) * ratio)"
  define lo hi :: real where "lo = (1 - u) ^ 2 / (1 + u)" and "hi = (1 + u) ^ 2 / (1 - u)"
  have R': "\<bar>rnd x - x\<bar> \<le> \<bar>x\<bar> * u" for x using R[of x] by (simp add: u_def)
  have u: "0 \<le> u" "u < 1" by (simp_all add: u_def)
  have yp: "0 < y" using t f by (simp add: y_def)
  have x0: "0 \<le> x" using yp by (simp add: x_def)
  have xs: "x \<le> 2 ^ 50" using size by (simp add: x_def y_def)
  have lo0: "0 \<le> lo" using u by (simp add: lo_def)
  have c1: "(1 - 1 / 2 ^ 50 :: real) \<le> lo" "hi \<le> (1 + 1 / 2 ^ 50 :: real)"
    by (simp_all add: lo_def hi_def u_def field_simps)
  have c2: "(1 - 1 / 2 ^ 50 :: real) \<le> (1 - u) ^ 2 * lo" "(1 + u) ^ 2 * hi \<le> (1 + 1 / 2 ^ 50 :: real)"
    by (simp_all add: lo_def hi_def u_def field_simps)
  have tf: "0 < real_of_int t" "0 < real_of_int f" using t f by simp_all
  have rb: "lo * y \<le> ratio" "ratio \<le> hi * y" "0 < ratio"
    using ratio_bounds[OF R' u tf] by (simp_all add: ratio_def lo_def hi_def y_def)
  show "0 < rnd (rnd (of_int t) / rnd (of_int f))" using rb(3) by (simp add: ratio_def)
  have r0: "0 \<le> ratio" using rb(3) by simp
  have n0: "0 \<le> real n" by simp
  have pb: "(1 - u) ^ 2 * lo * x \<le> p" "p \<le> (1 + u) ^ 2 * hi * x" "0 \<le> p"
    using product_bounds[OF R' u n0 rb(1,2) r0 lo0] yp by (simp_all add: p_def x_def)
  show "0 \<le> rnd (rnd (real n) * rnd (rnd (of_int t) / rnd (of_int f)))"
    using pb(3) by (simp add: p_def ratio_def)
  have slack: "x / 2 ^ 50 \<le> 1" using xs by simp
  have "(1 - 1 / 2 ^ 50) * x \<le> (1 - u) ^ 2 * lo * x" using c2(1) x0 by (rule mult_right_mono)
  with pb(1) have "x - x / 2 ^ 50 \<le> p" by (simp add: algebra_simps)
  moreover have "(1 + u) ^ 2 * hi * x \<le> (1 + 1 / 2 ^ 50) * x" using c2(2) x0 by (rule mult_right_mono)
  with pb(2) have "p \<le> x + x / 2 ^ 50" by (simp add: algebra_simps)
  ultimately have "\<bar>p - x\<bar> \<le> 1" using slack by (simp add: abs_le_iff)
  from floor_near[OF this]
  show "\<bar>\<lfloor>rnd (rnd (real n) * rnd (rnd (of_int t) / rnd (of_int f)))\<rfloor>
          - \<lfloor>real n * real_of_int t / real_of_int f\<rfloor>\<bar> \<le> 1"
    by (simp add: p_def ratio_def x_def y_def)
  show "\<bar>int n - \<lfloor>real n * real_of_int t / real_of_int f\<rfloor>\<bar> \<le> 1"
    if one: "rnd (rnd (of_int t) / rnd (of_int f)) = 1"
  proof -
    from one have r1: "ratio = 1" by (simp add: ratio_def)
    have "(1 - 1 / 2 ^ 50) * y \<le> lo * y" using c1(1) yp by (intro mult_right_mono) simp_all
    with rb(1) r1 have "(1 - 1 / 2 ^ 50) * y \<le> 1" by simp
    then have "real n * ((1 - 1 / 2 ^ 50) * y) \<le> real n * 1" by (intro mult_left_mono) simp_all
    then have a: "x - x / 2 ^ 50 \<le> real n" by (simp add: x_def algebra_simps)
    have "hi * y \<le> (1 + 1 / 2 ^ 50) * y" using c1(2) yp by (intro mult_right_mono) simp_all
    with rb(2) r1 have "1 \<le> (1 + 1 / 2 ^ 50) * y" by simp
    then have "real n * 1 \<le> real n * ((1 + 1 / 2 ^ 50) * y)" by (intro mult_left_mono) simp_all
    then have b: "real n \<le> x + x / 2 ^ 50" by (simp add: x_def algebra_simps)
    from a b slack have "\<bar>real n - x\<bar> \<le> 1" by (simp add: abs_le_iff)
    from floor_near[OF this] show ?thesis by (simp add: x_def y_def)
  qed
qed

lemma fill_output_ok:
  assumes "\<And>j. i \<le> j \<Longrightarrow> \<exists>y. body j = Inr y"
  shows "\<exists>ys. fill_output body i k = Inr ys \<and> length ys = k"
  using assms
proof (induction k arbitrary: i)
  case 0
  then show ?case by simp
next
  case (Suc k)
  from Suc.prems[of i] obtain y where y: "body i = Inr y" by auto
  have "\<exists>ys. fill_output body (i + 1) k = Inr ys \<and> length ys = k"
    by (rule Suc.IH) (rule Suc.prems, simp)
  then obtain ys where "fill_output body (i + 1) k = Inr ys" "length ys = k" by blast
  with y show ?case by simp
qed

lemma go_int_nonneg: "0 \<le> x \<Longrightarrow> go_int x = \<lfloor>x\<rfloor> \<and> 0 \<le> go_int x"
  by (simp add: go_int_def)

lemma srcPos_nonneg:
  fixes rnd64 :: "real \<Rightarrow> real"
  assumes R: "\<And>x. \<bar>rnd64 x - x\<bar> \<le> \<bar>x\<bar> / 2 ^ 53" and r: "0 < ratio0" and i: "0 \<le> i"
  shows "0 \<le> go_int (rnd64 (rnd64 (of_int i) / ratio0))"
proof -
  have R': "\<bar>rnd64 x - x\<bar> \<le> \<bar>x\<bar> * (1 / 2 ^ 53)" for x using R[of x] by simp
  have u: "(1 / 2 ^ 53 :: real) < 1" by simp
  have "0 \<le> rnd64 (of_int i)" using i by (intro rnd_nonneg[OF R' u]) simp
  then have "0 \<le> rnd64 (of_int i) / ratio0" using r by simp
  then have "0 \<le> rnd64 (rnd64 (of_int i) / ratio0)" by (rule rnd_nonneg[OF R' u])
  then show ?thesis by (simp add: go_int_nonneg)
qed

lemma interpolate_ok:
  fixes rnd64 :: "real \<Rightarrow> real"
  assumes R: "\<And>x. \<bar>rnd64 x - x\<bar> \<le> \<bar>x\<bar> / 2 ^ 53" and r: "0 < ratio0" and i: "0 \<le> i"
  shows "\<exists>y. interpolate rnd64 rnd32 ratio0 lastSample0 input i = Inr y"
  using srcPos_nonneg[OF R r i] by (simp add: interpolate_def Let_def)

lemma fir_loop_ok:
  "0 \<le> j \<Longrightarrow> j + int k \<le> int (length flt) \<Longrightarrow>
   \<exists>y. fir_loop rnd32 flt combined srcIdx filterLen j k sample = Inr y"
proof (induction k arbitrary: j sample)
  case 0
  then show ?case by simp
next
  case (Suc k)
  have "0 \<le> j + 1" "j + 1 + int k \<le> int (length flt)" using Suc.prems by simp_all
  from Suc.IH[OF this] Suc.prems show ?case by (simp add: Let_def)
qed

lemma update_history_ok:
  assumes "p_filterLen r = int (length (p_history r))"
  shows "\<exists>r'. update_history r input = Inr r'"
  using assms by (simp add: update_history_def Let_def go_copy_def)

lemma NewPolyphaseResampler_shape:
  "p_filterLen (NewPolyphaseResampler rnd64 design f t) = 64
   \<and> length (p_filter (NewPolyphaseResampler rnd64 design f t)) = 64
   \<and> length (p_history (NewPolyphaseResampler rnd64 design f t)) = 64
   \<and> p_ratio (NewPolyphaseResampler rnd64 design f t) = rnd64 (rnd64 (of_int t) / rnd64 (of_int f))"
  by (simp add: NewPolyphaseResampler_def Let_def)

lemma Resampler_Resample_length:
  fixes rnd64 :: "real \<Rightarrow> real"
  assumes R: "\<And>x. \<bar>rnd64 x - x\<bar> \<le> \<bar>x\<bar> / 2 ^ 53"
    and rates: "0 < fromRate0" "0 < toRate0"
    and size: "real (length input) * real_of_int toRate0 / real_of_int fromRate0 \<le> 2 ^ 50"
  shows "\<exists>r out. Resampler_Resample rnd64 rnd32 (NewResampler rnd64 fromRate0 toRate0) input = Inr (r, out)
            \<and> \<bar>int (length out) - \<lfloor>real (length input) * real_of_int toRate0 / real_of_int fromRate0\<rfloor>\<bar> \<le> 1"
proof -
  let ?r = "NewResampler rnd64 fromRate0 toRate0"
  let ?x = "real (length input) * real_of_int toRate0 / real_of_int fromRate0"
  have ratio: "ratio ?r = rnd64 (rnd64 (of_int toRate0) / rnd64 (of_int fromRate0))"
    by (simp add: NewResampler_def Let_def)
  note near = outputLen_near[OF R rates(2) rates(1) size]
  show ?thesis
  proof (cases "ratio ?r = 1")
    case True
    then have "Resampler_Resample rnd64 rnd32 ?r input = Inr (?r, input)"
      by (simp add: Resampler_Resample_def)
    moreover have "\<bar>int (length input) - \<lfloor>?x\<rfloor>\<bar> \<le> 1"
      using near(4) True ratio by simp
    ultimately show ?thesis by blast
  next
    case ne1: False
    show ?thesis
    proof (cases "length input = 0")
      case True
      then have "Resampler_Resample rnd64 rnd32 ?r input = Inr (?r, input)"
        by (simp add: Resampler_Resample_def)
      moreover have "\<bar>int (length input) - \<lfloor>?x\<rfloor>\<bar> \<le> 1" using True by simp
      ultimately show ?thesis by blast
    next
      case False
      let ?ol = "go_int (rnd64 (rnd64 (real (length input)) * ratio ?r))"
      have p0: "0 \<le> rnd64 (rnd64 (real (length input)) * ratio ?r)"
        using near(2) by (simp add: ratio)
      have ol: "?ol = \<lfloor>rnd64 (rnd64 (real (length input)) * ratio ?r)\<rfloor>" "0 \<le> ?ol"
        using go_int_nonneg[OF p0] by auto
      have rp: "0 < ratio ?r" using near(1) by (simp add: ratio)
      obtain out where out: "fill_output (interpolate rnd64 rnd32 (ratio ?r) (lastSample ?r) input) 0 (nat ?ol) = Inr out"
        "length out = nat ?ol"
        using fill_output_ok[of 0 "interpolate rnd64 rnd32 (ratio ?r) (lastSample ?r) input" "nat ?ol"]
          interpolate_ok[OF R rp] by blast
      have "Resampler_Resample rnd64 rnd32 ?r input
              = Inr (?r\<lparr>lastSample := input ! nat (int (length input) - 1)\<rparr>, out)"
        using ne1 False ol(2) out(1)
        by (simp add: Resampler_Resample_def Let_def)
      moreover have "\<bar>int (length out) - \<lfloor>?x\<rfloor>\<bar> \<le> 1"
        using near(3) ol out(2) by (simp add: ratio)
      ultimately show ?thesis by blast
    qed
  qed
qed

lemma PolyphaseResampler_Resample_length:
  fixes rnd64 :: "real \<Rightarrow> real"
  assumes R: "\<And>x. \<bar>rnd64 x - x\<bar> \<le> \<bar>x\<bar> / 2 ^ 53"
    and rates: "0 < fromRate0" "0 < toRate0"
    and size: "real (length input) * real_of_int toRate0 / real_of_int fromRate0 \<le> 2 ^ 50"
  shows "\<exists>r out. PolyphaseResampler_Resample rnd64 rnd32
                    (NewPolyphaseResampler rnd64 design fromRate0 toRate0) input = Inr (r, out)
            \<and> \<bar>int (length out) - \<lfloor>real (length input) * real_of_int toRate0 / real_of_int fromRate0\<rfloor>\<bar> \<le> 1"
proof -
  let ?r = "NewPolyphaseResampler rnd64 design fromRate0 toRate0"
  let ?x = "real (length input) * real_of_int toRate0 / real_of_int fromRate0"
  note shape = NewPolyphaseResampler_shape[of rnd64 design fromRate0 toRate0]
  have ratio: "p_ratio ?r = rnd64 (rnd64 (of_int toRate0) / rnd64 (of_int fromRate0))"
    using shape by simp
  note near = outputLen_near[OF R rates(2) rates(1) size]
  show ?thesis
  proof (cases "p_ratio ?r = 1")
    case True
    then have "PolyphaseResampler_Resample rnd64 rnd32 ?r input = Inr (?r, input)"
      by (simp add: PolyphaseResampler_Resample_def)
    moreover have "\<bar>int (length input) - \<lfloor>?x\<rfloor>\<bar> \<le> 1"
      using near(4) True ratio by simp
    ultimately show ?thesis by blast
  next
    case ne1: False
    show ?thesis
    proof (cases "length input = 0")
      case True
      then have "PolyphaseResampler_Resample rnd64 rnd32 ?r input = Inr (?r, input)"
        by (simp add: PolyphaseResampler_Resample_def)
      moreover have "\<bar>int (length input) - \<lfloor>?x\<rfloor>\<bar> \<le> 1" using True by simp
      ultimately show ?thesis by blast
    next
      case False
      let ?ol = "go_int (rnd64 (rnd64 (real (length input)) * p_ratio ?r))"
      have p0: "0 \<le> rnd64 (rnd64 (real (length input)) * p_ratio ?r)"
        using near(2) by (simp add: ratio)
      have ol: "?ol = \<lfloor>rnd64 (rnd64 (real (length input)) * p_ratio ?r)\<rfloor>" "0 \<le> ?ol"
        using go_int_nonneg[OF p0] by auto
      have rp: "0 < p_ratio ?r" using near(1) by (simp add: ratio)
      have bound: "\<bar>?ol - \<lfloor>?x\<rfloor>\<bar> \<le> 1" using near(3) ol(1) by (simp add: ratio)
      show ?thesis
      proof (cases "p_ratio ?r > 1")
        case True
        obtain out where out:
          "fill_output (interpolate rnd64 rnd32 (p_ratio ?r) (p_lastSample ?r) input) 0 (nat ?ol) = Inr out"
          "length out = nat ?ol"
          using fill_output_ok[of 0 "interpolate rnd64 rnd32 (p_ratio ?r) (p_lastSample ?r) input" "nat ?ol"]
            interpolate_ok[OF R rp] by blast
        have "\<exists>r'. PolyphaseResampler_Resample rnd64 rnd32 ?r input = Inr (r', out)"
          using ne1 False True ol(2) out(1)
          by (simp add: PolyphaseResampler_Resample_def upsample_def Let_def)
        moreover have "\<bar>int (length out) - \<lfloor>?x\<rfloor>\<bar> \<le> 1"
          using bound ol(2) out(2) by simp
        ultimately show ?thesis by blast
      next
        case down: False
        let ?combined = "p_history ?r @ input"
        have taps: "\<exists>y. downsample_at rnd64 rnd32 ?r ?combined j = Inr y" for j
          unfolding downsample_at_def Let_def
          using shape by (intro fir_loop_ok) simp_all
        obtain out where out:
          "fill_output (downsample_at rnd64 rnd32 ?r ?combined) 0 (nat ?ol) = Inr out"
          "length out = nat ?ol"
          using fill_output_ok[of 0 "downsample_at rnd64 rnd32 ?r ?combined" "nat ?ol"] taps
          by blast
        obtain r' where r': "update_history ?r input = Inr r'"
          using update_history_ok[of ?r input] shape by auto
        have "PolyphaseResampler_Resample rnd64 rnd32 ?r input = Inr (r', out)"
          using ne1 False down ol(2) out(1) r'
          by (simp add: PolyphaseResampler_Resample_def downsample_def Let_def)
        moreover have "\<bar>int (length out) - \<lfloor>?x\<rfloor>\<bar> \<le> 1"
          using bound ol(2) out(2) by simp
        ultimately show ?thesis by blast
      qed
    qed
  qed
qed

text \<open>
  Claim C6. Let the rounding \<open>rnd\<close> of a \<open>float64\<close> result have a relative error of
  at most \<open>2^-53\<close> (IEEE 754 rounding to nearest, away from overflow and underflow),
  let both rates be positive and \<open>N * toRate / fromRate \<le> 2^50\<close> for the length \<open>N\<close>
  of the input. Then a resampler built for these rates, the linear and the polyphase
  one, returns an output whose length differs from \<open>\<lfloor>N * toRate / fromRate\<rfloor>\<close> by at
  most 1. A resampler whose ratio is 1 returns its input, and stays as it was, so that
  resampling the result once more returns it again; \<open>ResampleInPlace\<close> with equal rates
  returns its input.
\<close>

theorem Resample_length_and_identity:
  fixes rnd :: "real \<Rightarrow> real"
  assumes R: "\<And>x. \<bar>rnd x - x\<bar> \<le> \<bar>x\<bar> / 2 ^ 53"
    and rates: "0 < fromR" "0 < toR"
    and size: "real (length input) * real_of_int toR / real_of_int fromR \<le> 2 ^ 50"
  shows "(\<exists>r out. Resampler_Resample rnd rnds (NewResampler rnd fromR toR) input = Inr (r, out)
            \<and> \<bar>int (length out) - \<lfloor>real (length input) * real_of_int toR / real_of_int fromR\<rfloor>\<bar> \<le> 1)
       \<and> (\<exists>r out. PolyphaseResampler_Resample rnd rnds
                    (NewPolyphaseResampler rnd design fromR toR) input = Inr (r, out)
            \<and> \<bar>int (length out) - \<lfloor>real (length input) * real_of_int toR / real_of_int fromR\<rfloor>\<bar> \<le> 1)
       \<and> (ratio rs = 1 \<longrightarrow> Resampler_Resample rnd rnds rs input = Inr (rs, input))
       \<and> (p_ratio ps = 1 \<longrightarrow> PolyphaseResampler_Resample rnd rnds ps input = Inr (ps, input))
       \<and> ResampleInPlace rnd rnds input fromR fromR = Inr input"
  using Resampler_Resample_length[OF R rates size, of rnds]
    PolyphaseResampler_Resample_length[OF R rates size, of rnds design]
  by (simp add: Resampler_Resample_def PolyphaseResampler_Resample_def ResampleInPlace_def)

theorem Resample_length_and_identity_witness:
  "(0::int) < 48000 \<and> (0::int) < 16000
   \<and> real (length [1, 2, 3, 4, 5, 6, 7 :: real]) * real_of_int 16000 / real_of_int 48000 \<le> 2 ^ 50
   \<and> (\<exists>r out. Resampler_Resample (\<lambda>x. x) (\<lambda>x. x) (NewResampler (\<lambda>x. x) 48000 16000)
                   [1, 2, 3, 4, 5, 6, 7] = Inr (r, out)
          \<and> \<bar>int (length out) - 2\<bar> \<le> 1)
   \<and> (\<exists>r out. PolyphaseResampler_Resample (\<lambda>x. x) (\<lambda>x. x)
                   (NewPolyphaseResampler (\<lambda>x. x) (\<lambda>c i. 1 / 64) 48000 16000)
                   [1, 2, 3, 4, 5, 6, 7] = Inr (r, out)
          \<and> \<bar>int (length out) - 2\<bar> \<le> 1)
   \<and> ratio (NewResampler (\<lambda>x. x) 16000 16000) = 1
   \<and> Resampler_Resample (\<lambda>x. x) (\<lambda>x. x) (NewResampler (\<lambda>x. x) 16000 16000) [1, 2, 3, 4, 5, 6, 7]
        = Inr (NewResampler (\<lambda>x. x) 16000 16000, [1, 2, 3, 4, 5, 6, 7])
   \<and> p_ratio (NewPolyphaseResampler (\<lambda>x. x) (\<lambda>c i. 1 / 64) 16000 16000) = 1
   \<and> PolyphaseResampler_Resample (\<lambda>x. x) (\<lambda>x. x)
        (NewPolyphaseResampler (\<lambda>x. x) (\<lambda>c i. 1 / 64) 16000 16000) [1, 2, 3, 4, 5, 6, 7]
        = Inr (NewPolyphaseResampler (\<lambda>x. x) (\<lambda>c i. 1 / 64) 16000 16000, [1, 2, 3, 4, 5, 6, 7])"
proof -
  have R: "\<bar>(\<lambda>x. x) x - x\<bar> \<le> \<bar>x\<bar> / 2 ^ 53" for x :: real by simp
  have rates: "(0::int) < 48000" "(0::int) < 16000" by simp_all
  have size: "real (length [1, 2, 3, 4, 5, 6, 7 :: real]) * real_of_int 16000 / real_of_int 48000 \<le> 2 ^ 50"
    by simp
  have fl: "\<lfloor>real (length [1, 2, 3, 4, 5, 6, 7 :: real]) * real_of_int 16000 / real_of_int 48000\<rfloor> = 2"
    by simp
  have r1: "ratio (NewResampler (\<lambda>x. x) 16000 16000) = 1"
    by (simp add: NewResampler_def)
  have r2: "p_ratio (NewPolyphaseResampler (\<lambda>x. x) (\<lambda>c i. 1 / 64) 16000 16000) = 1"
    by (simp add: NewPolyphaseResampler_def)
  note T = Resample_length_and_identity [where rnd = "\<lambda>x. x" and rnds = "\<lambda>x. x"
      and design = "\<lambda>c i. 1 / 64" and input = "[1, 2, 3, 4, 5, 6, 7]"
      and rs = "NewResampler (\<lambda>x. x) 16000 16000"
      and ps = "NewPolyphaseResampler (\<lambda>x. x) (\<lambda>c i. 1 / 64) 16000 16000",
      OF R rates size, unfolded fl]
  show ?thesis
    using T r1 r2 rates size by (intro conjI) blast+
qed

end
